theory Spec2Isabelle
  imports Main "HOL-Library.Sublist" "HOL-Library.Char_ord" "HOL-Library.List_Lexorder"
begin

section \<open>Python strings\<close>

text \<open>
  A Python \<open>str\<close> is modelled as a \<open>string\<close>: one \<open>char\<close> per code point, for the
  code points below 256.  The helpers of this section are the methods of \<open>str\<close> that
  the modelled modules call.
\<close>

definition sq :: char where
  "sq = CHR 0x27"

definition dq :: char where
  "dq = CHR 0x22"

text \<open>\<open>s.replace(old, new)\<close> for a non-empty \<open>old\<close>: left to right, occurrences do not overlap.\<close>

fun replace_all :: "string \<Rightarrow> string \<Rightarrow> string \<Rightarrow> string" where
  "replace_all old new [] = []"
| "replace_all old new (c # cs) =
     (if old \<noteq> [] \<and> prefix old (c # cs)
      then new @ replace_all old new (drop (length old) (c # cs))
      else c # replace_all old new cs)"

text \<open>\<open>s.replace(old, new)\<close>; an empty \<open>old\<close> matches before every character and at the end.\<close>

definition py_replace :: "string \<Rightarrow> string \<Rightarrow> string \<Rightarrow> string" where
  "py_replace s old new =
     (if old = [] then new @ concat (map (\<lambda>c. c # new) s) else replace_all old new s)"

text \<open>\<open>c.isspace()\<close> for the code points below 256.\<close>

definition py_isspace :: "char \<Rightarrow> bool" where
  "py_isspace c \<longleftrightarrow>
     (of_char c :: nat) \<in> set ([0x09 ..< 0x0e] @ [0x1c ..< 0x20] @ [0x20, 0x85, 0xa0])"

text \<open>\<open>s.strip()\<close>, \<open>s.lstrip(chars)\<close> and \<open>s.rstrip(chars)\<close>.\<close>

definition py_strip :: "string \<Rightarrow> string" where
  "py_strip s = rev (dropWhile py_isspace (rev (dropWhile py_isspace s)))"

definition py_lstrip :: "string \<Rightarrow> string \<Rightarrow> string" where
  "py_lstrip chars s = dropWhile (\<lambda>c. c \<in> set chars) s"

definition py_rstrip :: "string \<Rightarrow> string \<Rightarrow> string" where
  "py_rstrip chars s = rev (dropWhile (\<lambda>c. c \<in> set chars) (rev s))"

text \<open>\<open>s.lower()\<close> for the code points below 256: the ASCII capitals and the Latin-1
  capitals 0xC0-0xDE without the multiplication sign 0xD7.\<close>

definition py_lower_char :: "char \<Rightarrow> char" where
  "py_lower_char c =
     (let n = (of_char c :: nat)
      in if (0x41 \<le> n \<and> n \<le> 0x5a) \<or> (0xc0 \<le> n \<and> n \<le> 0xde \<and> n \<noteq> 0xd7)
         then char_of (n + 0x20) else c)"

definition py_lower :: "string \<Rightarrow> string" where
  "py_lower s = map py_lower_char s"

text \<open>\<open>s.split(sep)\<close> for a one-character separator, and \<open>sep.join(xs)\<close>.\<close>

fun split_sep :: "char \<Rightarrow> string \<Rightarrow> string list" where
  "split_sep sep [] = [[]]"
| "split_sep sep (c # cs) =
     (if c = sep then [] # split_sep sep cs
      else (case split_sep sep cs of
              [] \<Rightarrow> [[c]]
            | x # xs \<Rightarrow> (c # x) # xs))"

fun join_sep :: "string \<Rightarrow> string list \<Rightarrow> string" where
  "join_sep sep [] = []"
| "join_sep sep [x] = x"
| "join_sep sep (x # y # ys) = x @ sep @ join_sep sep (y # ys)"

text \<open>\<open>str(n)\<close> for a non-negative integer.\<close>

fun str_nat :: "nat \<Rightarrow> string" where
  "str_nat n =
     (if n < 10 then [char_of (48 + n)]
      else str_nat (n div 10) @ [char_of (48 + n mod 10)])"

text \<open>\<open>s.splitlines()\<close>: the line boundaries among the code points below 256 are
  LF, VT, FF, CR, CR LF, FS, GS, RS and NEL; they are not kept, and there is no
  empty last line.\<close>

definition is_linebreak :: "char \<Rightarrow> bool" where
  "is_linebreak c \<longleftrightarrow> (of_char c :: nat) \<in> set [0x0a, 0x0b, 0x0c, 0x0d, 0x1c, 0x1d, 0x1e, 0x85]"

fun splitlines_from :: "string \<Rightarrow> string \<Rightarrow> string list" where
  "splitlines_from cur [] = (if cur = [] then [] else [cur])"
| "splitlines_from cur [c] = (if is_linebreak c then [cur] else [cur @ [c]])"
| "splitlines_from cur (c # d # cs) =
     (if c = CHR 0x0d \<and> d = CHR 0x0a then cur # splitlines_from [] cs
      else if is_linebreak c then cur # splitlines_from [] (d # cs)
      else splitlines_from (cur @ [c]) (d # cs))"

definition splitlines :: "string \<Rightarrow> string list" where
  "splitlines s = splitlines_from [] s"

text \<open>Truthiness of an \<open>Optional[str]\<close>, and \<open>x or ""\<close>.\<close>

definition truthy :: "string option \<Rightarrow> bool" where
  "truthy x \<longleftrightarrow> (case x of None \<Rightarrow> False | Some s \<Rightarrow> s \<noteq> [])"

definition or_empty :: "string option \<Rightarrow> string" where
  "or_empty x = (case x of None \<Rightarrow> [] | Some s \<Rightarrow> s)"

text \<open>A \<open>dict\<close> with list values, in insertion order: \<open>d.setdefault(k, []).append(v)\<close>.\<close>

fun setdefault_append :: "('k \<times> 'v list) list \<Rightarrow> 'k \<Rightarrow> 'v \<Rightarrow> ('k \<times> 'v list) list" where
  "setdefault_append [] k v = [(k, [v])]"
| "setdefault_append ((k', vs) # rest) k v =
     (if k' = k then (k', vs @ [v]) # rest else (k', vs) # setdefault_append rest k v)"

section \<open>core/quoting.py\<close>

datatype quote_error = QuoteError string

text \<open>The character class of \<open>_CONTROL_RE\<close>, as the pattern lists it.\<close>

definition CONTROL_RE :: "char \<Rightarrow> bool" where
  "CONTROL_RE c \<longleftrightarrow>
     (of_char c :: nat) \<in> set ([0x00, 0x01, 0x02, 0x03, 0x04, 0x05, 0x06, 0x07, 0x08, 0x0b, 0x0c]
                              @ [0x0e ..< 0x20] @ [0x7f])"

definition assert_safe_text :: "string \<Rightarrow> string \<Rightarrow> quote_error + unit" where
  "assert_safe_text val what =
     (if CHR 0x00 \<in> set val then Inl (QuoteError (what @ '' contains NUL byte, refusing.''))
      else if list_ex CONTROL_RE val
      then Inl (QuoteError (what @ '' contains control character, refusing.''))
      else Inr ())"

definition bash_quote :: "string \<Rightarrow> quote_error + string" where
  "bash_quote arg =
     (case assert_safe_text arg ''path'' of
        Inl e \<Rightarrow> Inl e
      | Inr _ \<Rightarrow>
          if arg = [] then Inr [sq, sq]
          else Inr ([sq] @ py_replace arg [sq] [sq, dq, sq, dq, sq] @ [sq]))"



section \<open>core/operations.py\<close>

datatype OperationKind = MKDIR | MOVE | RENAME | LINK | COPY

text \<open>The \<open>.value\<close> of each member of the enumeration.\<close>

fun kind_value :: "OperationKind \<Rightarrow> string" where
  "kind_value MKDIR = ''mkdir''"
| "kind_value MOVE = ''mv''"
| "kind_value RENAME = ''rename''"
| "kind_value LINK = ''ln''"
| "kind_value COPY = ''cp''"

record Operation =
  kind :: OperationKind
  src :: "string option"
  dst :: "string option"
  detail :: string
  selected :: bool
  warning :: string
  op_id :: string

section \<open>core/plan.py\<close>

record Plan =
  title :: string
  operations :: "Operation list"
  warnings :: "string list"

definition selected_operations :: "Plan \<Rightarrow> Operation list" where
  "selected_operations p = filter selected (operations p)"

definition count_selected :: "Plan \<Rightarrow> nat" where
  "count_selected p = length (filter selected (operations p))"

text \<open>
  The lists built by \<open>detect_destination_collisions\<close> hold the operation objects of
  \<open>plan.operations\<close> themselves, and \<open>apply_collision_warnings\<close> writes to them.  An
  object is named here by its position in \<open>plan.operations\<close> (every position holds an
  object of its own), so the dictionary maps a destination to a list of positions.
\<close>

definition selected_positions :: "Operation list \<Rightarrow> nat list" where
  "selected_positions ops = filter (\<lambda>i. selected (ops ! i)) [0 ..< length ops]"

definition by_dst_step :: "Operation list \<Rightarrow> (string \<times> nat list) list \<Rightarrow> nat \<Rightarrow> (string \<times> nat list) list" where
  "by_dst_step ops by_dst i =
     (if \<not> truthy (dst (ops ! i)) then by_dst
      else setdefault_append by_dst (or_empty (dst (ops ! i))) i)"

definition detect_destination_collisions :: "Plan \<Rightarrow> (string \<times> nat list) list" where
  "detect_destination_collisions p =
     filter (\<lambda>(d, is). length is > 1)
       (foldl (by_dst_step (operations p)) [] (selected_positions (operations p)))"

definition collision_message :: "string \<Rightarrow> string" where
  "collision_message d = ''Collision: multiple ops target '' @ d"

definition annotate :: "string \<Rightarrow> Operation \<Rightarrow> Operation" where
  "annotate d op =
     op\<lparr>warning := (if warning op \<noteq> [] then warning op @ ''; '' else []) @ collision_message d\<rparr>"

definition annotate_all :: "Operation list \<Rightarrow> string \<times> nat list \<Rightarrow> Operation list" where
  "annotate_all ops c = foldl (\<lambda>os i. os[i := annotate (fst c) (os ! i)]) ops (snd c)"

definition apply_collision_warnings :: "Plan \<Rightarrow> Plan" where
  "apply_collision_warnings p =
     (let collisions = detect_destination_collisions p;
          p1 = p\<lparr>operations := foldl annotate_all (operations p) collisions\<rparr>
      in if collisions \<noteq> []
         then p1\<lparr>warnings := warnings p1 @
                [str_nat (length collisions) @ '' destination collision(s) detected inside the plan.'']\<rparr>
         else p1)"

definition add_warning :: "Plan \<Rightarrow> string \<Rightarrow> Plan" where
  "add_warning p msg = (if msg \<in> set (warnings p) then p else p\<lparr>warnings := warnings p @ [msg]\<rparr>)"

definition extend_plan :: "Plan \<Rightarrow> Operation list \<Rightarrow> Plan" where
  "extend_plan p ops = p\<lparr>operations := operations p @ ops\<rparr>"

text \<open>The plan of \<open>tests/test_collisions.py\<close>: two moves to the same destination.\<close>

definition test_collision_plan :: Plan where
  "test_collision_plan =
     \<lparr>title = ''t'',
      operations =
        [\<lparr>kind = MOVE, src = Some ''/a'', dst = Some ''/x'', detail = [], selected = True,
          warning = [], op_id = []\<rparr>,
         \<lparr>kind = MOVE, src = Some ''/b'', dst = Some ''/x'', detail = [], selected = True,
          warning = [], op_id = []\<rparr>],
      warnings = []\<rparr>"

section \<open>core/history.py\<close>

subsection \<open>The undo plan\<close>

text \<open>One round of the loop of \<open>build_undo_plan\<close>; the state is \<open>(undo_ops, skipped)\<close>.\<close>

definition undo_step :: "bool \<Rightarrow> Operation list \<times> string list \<Rightarrow> Operation \<Rightarrow> Operation list \<times> string list" where
  "undo_step only_mv_rename st op =
     (let undo_ops = fst st; skipped = snd st
      in if kind op = MOVE \<or> kind op = RENAME then
           (if \<not> truthy (src op) \<or> \<not> truthy (dst op) then (undo_ops, skipped)
            else (undo_ops @
                    [\<lparr>kind = MOVE, src = dst op, dst = src op,
                      detail = py_strip (''UNDO '' @ detail op),
                      selected = True, warning = [], op_id = []\<rparr>],
                  skipped))
         else if kind op = MKDIR then (undo_ops, skipped)
         else if only_mv_rename then
           (undo_ops,
            skipped @ [''Skip undo for '' @ kind_value (kind op) @ '': '' @ or_empty (src op)
                        @ '' -> '' @ or_empty (dst op)])
         else (undo_ops, skipped @ [''Unsupported undo op: '' @ kind_value (kind op)]))"

definition build_undo_plan :: "Operation list \<Rightarrow> string \<Rightarrow> bool \<Rightarrow> Plan \<times> string list" where
  "build_undo_plan executed_ops ttl only_mv_rename =
     (let st = foldl (undo_step only_mv_rename) ([], []) (rev executed_ops);
          plan0 = \<lparr>title = ttl, operations = [], warnings = []\<rparr>;
          plan1 = extend_plan plan0 (fst st);
          plan2 = apply_collision_warnings plan1;
          plan3 = foldl add_warning plan2 (snd st)
      in (plan3, snd st))"

subsection \<open>The tokens of a line: \<open>shlex.split(line, posix=True)\<close>\<close>

text \<open>
  \<open>parse_ops_from_script\<close> reads a line with the standard library's \<open>shlex.split\<close>.  This
  is its lexer in POSIX mode with \<open>whitespace_split\<close> set and no comment characters:
  the state is \<open>' '\<close> (between tokens), \<open>'a'\<close> (in a word), a quote character, or the
  escape character; \<open>escapedstate\<close> is the state to return to after an escape.  With
  \<open>whitespace_split\<close> set, a character that is no whitespace, quote or escape is added to
  the token whether or not it is one of \<open>wordchars\<close>, so the two branches are one here.
\<close>

datatype lex_state = InSpace | InWord | InQuote char | InEscape

datatype shlex_error = NoClosingQuotation | NoEscapedCharacter

definition shlex_whitespace :: "char \<Rightarrow> bool" where
  "shlex_whitespace c \<longleftrightarrow> c \<in> set [CHR '' '', CHR 0x09, CHR 0x0d, CHR 0x0a]"

definition shlex_quotes :: "char \<Rightarrow> bool" where
  "shlex_quotes c \<longleftrightarrow> c = sq \<or> c = dq"

definition shlex_escape :: "char \<Rightarrow> bool" where
  "shlex_escape c \<longleftrightarrow> c = CHR 0x5c"

definition shlex_escapedquotes :: "char \<Rightarrow> bool" where
  "shlex_escapedquotes c \<longleftrightarrow> c = dq"

definition emit :: "string \<Rightarrow> shlex_error + string list \<Rightarrow> shlex_error + string list" where
  "emit tok r = (case r of Inl e \<Rightarrow> Inl e | Inr ts \<Rightarrow> Inr (tok # ts))"

text \<open>
  \<open>read_tokens state escapedstate token quoted input\<close> runs \<open>read_token\<close> until the end of
  the input and returns the tokens read.  A token is given out when \<open>token\<close> is not empty
  or \<open>quoted\<close> is set; the next call starts with an empty token and \<open>quoted\<close> unset.
\<close>

fun read_tokens :: "lex_state \<Rightarrow> lex_state \<Rightarrow> string \<Rightarrow> bool \<Rightarrow> string \<Rightarrow> shlex_error + string list" where
  "read_tokens InSpace es tok q [] = Inr (if tok \<noteq> [] \<or> q then [tok] else [])"
| "read_tokens InWord es tok q [] = Inr (if tok \<noteq> [] \<or> q then [tok] else [])"
| "read_tokens (InQuote qc) es tok q [] = Inl NoClosingQuotation"
| "read_tokens InEscape es tok q [] = Inl NoEscapedCharacter"
| "read_tokens InSpace es tok q (c # cs) =
     (if shlex_whitespace c then
        (if tok \<noteq> [] \<or> q then emit tok (read_tokens InSpace InSpace [] False cs)
         else read_tokens InSpace es tok q cs)
      else if shlex_escape c then read_tokens InEscape InWord tok q cs
      else if shlex_quotes c then read_tokens (InQuote c) es tok q cs
      else read_tokens InWord es [c] q cs)"
| "read_tokens (InQuote qc) es tok q (c # cs) =
     (if c = qc then read_tokens InWord es tok True cs
      else if shlex_escape c \<and> shlex_escapedquotes qc then read_tokens InEscape (InQuote qc) tok True cs
      else read_tokens (InQuote qc) es (tok @ [c]) True cs)"
| "read_tokens InEscape es tok q (c # cs) =
     (let tok1 = (case es of
                    InQuote qc \<Rightarrow> if \<not> shlex_escape c \<and> c \<noteq> qc then tok @ [CHR 0x5c] else tok
                  | _ \<Rightarrow> tok)
      in read_tokens es es (tok1 @ [c]) q cs)"
| "read_tokens InWord es tok q (c # cs) =
     (if shlex_whitespace c then
        (if tok \<noteq> [] \<or> q then emit tok (read_tokens InSpace InSpace [] False cs)
         else read_tokens InSpace es tok q cs)
      else if shlex_quotes c then read_tokens (InQuote c) es tok q cs
      else if shlex_escape c then read_tokens InEscape InWord tok q cs
      else read_tokens InWord es (tok @ [c]) q cs)"

definition shlex_split :: "string \<Rightarrow> shlex_error + string list" where
  "shlex_split s = read_tokens InSpace InSpace [] False s"

subsection \<open>Operations read back from a script\<close>

definition new_operation :: "OperationKind \<Rightarrow> string option \<Rightarrow> string option \<Rightarrow> Operation" where
  "new_operation k s d =
     \<lparr>kind = k, src = s, dst = d, detail = [], selected = True, warning = [], op_id = []\<rparr>"

definition parse_line :: "string \<Rightarrow> Operation list" where
  "parse_line raw_line =
     (let line = py_strip raw_line
      in if line = [] \<or> prefix ''#'' line then []
         else if \<not> (prefix ''safe_'' line \<or> prefix ''run '' line) then []
         else (case shlex_split line of
                 Inl e \<Rightarrow> []
               | Inr [] \<Rightarrow> []
               | Inr (cmd # args) \<Rightarrow>
                   if cmd = ''safe_mv'' \<and> length (cmd # args) \<ge> 3
                   then [new_operation MOVE (Some (args ! 0)) (Some (args ! 1))]
                   else if cmd = ''safe_ln'' \<and> length (cmd # args) \<ge> 3
                   then [new_operation LINK (Some (args ! 0)) (Some (args ! 1))]
                   else if cmd = ''safe_cp'' \<and> length (cmd # args) \<ge> 3
                   then [new_operation COPY (Some (args ! 0)) (Some (args ! 1))]
                   else if cmd = ''safe_mkdir'' \<and> length (cmd # args) \<ge> 2
                   then [new_operation MKDIR None (Some (args ! 0))]
                   else []))"

definition parse_ops_from_script :: "string \<Rightarrow> Operation list" where
  "parse_ops_from_script script = concat (map parse_line (splitlines script))"

subsection \<open>Operations in the journal\<close>

text \<open>
  An entry of the \<open>ops\<close> list of a journal record.  A dictionary is given by the strings
  under its five keys, \<open>None\<close> for a key that is absent or holds \<open>null\<close>; any entry that
  is not a dictionary is \<open>NotADict\<close>.
\<close>

record journal_op =
  j_kind :: "string option"
  j_src :: "string option"
  j_dst :: "string option"
  j_detail :: "string option"
  j_warning :: "string option"

datatype journal_item = NotADict | Dict journal_op

text \<open>The two keys of a journal record that \<open>ops_from_journal\<close> reads: \<open>rec_ops\<close> is
  \<open>None\<close> when \<open>ops\<close> is absent or not a list, \<open>rec_script\<close> when \<open>script\<close> is absent.\<close>

record journal_record =
  rec_ops :: "journal_item list option"
  rec_script :: "string option"

definition ops_to_journal_dicts :: "Operation list \<Rightarrow> journal_item list" where
  "ops_to_journal_dicts ops =
     map (\<lambda>op. Dict \<lparr>j_kind = Some (kind_value (kind op)), j_src = src op, j_dst = dst op,
                      j_detail = Some (detail op), j_warning = Some (warning op)\<rparr>) ops"

text \<open>\<open>OperationKind(kind_s)\<close>, which raises for a string that is no member's value, and
  the mapping tried after it.\<close>

definition OperationKind_of :: "string \<Rightarrow> OperationKind option" where
  "OperationKind_of s =
     (if s = ''mkdir'' then Some MKDIR
      else if s = ''mv'' then Some MOVE
      else if s = ''rename'' then Some RENAME
      else if s = ''ln'' then Some LINK
      else if s = ''cp'' then Some COPY
      else None)"

definition load_item :: "journal_item \<Rightarrow> Operation list" where
  "load_item item =
     (case item of
        NotADict \<Rightarrow> []
      | Dict d \<Rightarrow>
          (let kind_s = or_empty (j_kind d);
               k = (case OperationKind_of kind_s of
                      Some k \<Rightarrow> Some k
                    | None \<Rightarrow>
                        if kind_s = ''mv'' then Some MOVE
                        else if kind_s = ''mkdir'' then Some MKDIR
                        else if kind_s = ''ln'' then Some LINK
                        else if kind_s = ''cp'' then Some COPY
                        else None)
           in case k of
                None \<Rightarrow> []
              | Some k \<Rightarrow>
                  [\<lparr>kind = k, src = j_src d, dst = j_dst d, detail = or_empty (j_detail d),
                    selected = True, warning = or_empty (j_warning d), op_id = []\<rparr>]))"

definition ops_from_journal :: "journal_record \<Rightarrow> Operation list" where
  "ops_from_journal record =
     (case rec_ops record of
        Some (item # items) \<Rightarrow> concat (map load_item (item # items))
      | _ \<Rightarrow> parse_ops_from_script (or_empty (rec_script record)))"

section \<open>\<open>pathlib.PurePosixPath\<close>\<close>

text \<open>
  The modules build a \<open>PurePosixPath\<close> from one string.  Such a path is the pair of its
  root (empty, \<open>/\<close> or \<open>//\<close>) and its parts (the root first, when there is one), as
  \<open>parse_parts\<close> of the POSIX flavour computes them.
\<close>

definition splitroot :: "string \<Rightarrow> string \<times> string" where
  "splitroot part =
     (if part \<noteq> [] \<and> hd part = CHR ''/'' then
        (let stripped_part = py_lstrip ''/'' part
         in if length part - length stripped_part = 2 then (''//'', stripped_part)
            else (''/'', stripped_part))
      else ([], part))"

definition parse_parts :: "string \<Rightarrow> string \<times> string list" where
  "parse_parts part =
     (if part = [] then ([], [])
      else (let root = fst (splitroot part); rel = snd (splitroot part);
                parsed = (if CHR ''/'' \<in> set rel
                          then filter (\<lambda>x. x \<noteq> [] \<and> x \<noteq> ''.'') (split_sep (CHR ''/'') rel)
                          else if rel \<noteq> [] \<and> rel \<noteq> ''.'' then [rel] else [])
            in (root, (if root \<noteq> [] then [root] else []) @ parsed)))"

definition PurePosixPath :: "string \<Rightarrow> string \<times> string list" where
  "PurePosixPath s = parse_parts s"

text \<open>\<open>str(p)\<close>, \<open>p.parts\<close>, \<open>p.name\<close>, \<open>p.suffix\<close>, \<open>p.stem\<close> and \<open>p.parent\<close>.\<close>

definition path_str :: "string \<times> string list \<Rightarrow> string" where
  "path_str p =
     (let s = (if fst p \<noteq> [] then fst p @ join_sep ''/'' (tl (snd p)) else join_sep ''/'' (snd p))
      in if s = [] then ''.'' else s)"

definition path_parts :: "string \<times> string list \<Rightarrow> string list" where
  "path_parts p = snd p"

definition path_name :: "string \<times> string list \<Rightarrow> string" where
  "path_name p =
     (if length (snd p) = (if fst p \<noteq> [] then 1 else 0) then [] else last (snd p))"

text \<open>\<open>name.rfind(c)\<close>, with \<open>None\<close> for -1.\<close>

fun py_rfind :: "char \<Rightarrow> string \<Rightarrow> nat option" where
  "py_rfind c [] = None"
| "py_rfind c (x # xs) =
     (case py_rfind c xs of
        Some i \<Rightarrow> Some (Suc i)
      | None \<Rightarrow> if x = c then Some 0 else None)"

definition path_suffix :: "string \<times> string list \<Rightarrow> string" where
  "path_suffix p =
     (let name = path_name p
      in case py_rfind (CHR ''.'') name of
           Some i \<Rightarrow> if 0 < i \<and> i < length name - 1 then drop i name else []
         | None \<Rightarrow> [])"

definition path_stem :: "string \<times> string list \<Rightarrow> string" where
  "path_stem p =
     (let name = path_name p
      in case py_rfind (CHR ''.'') name of
           Some i \<Rightarrow> if 0 < i \<and> i < length name - 1 then take i name else name
         | None \<Rightarrow> name)"

definition path_parent :: "string \<times> string list \<Rightarrow> string \<times> string list" where
  "path_parent p =
     (if length (snd p) = 1 \<and> fst p \<noteq> [] then p else (fst p, butlast (snd p)))"

section \<open>core/validators.py\<close>

datatype SandboxViolation = SandboxViolation string

record Sandbox =
  allowed_roots :: "string list"

definition normalized_roots :: "Sandbox \<Rightarrow> string list" where
  "normalized_roots sb =
     concat (map (\<lambda>r. if r = [] then []
                       else (let rp = path_str (PurePosixPath r)
                             in if \<not> prefix ''/'' rp then []
                                else [if \<not> suffix ''/'' rp then rp @ ''/'' else rp]))
                 (allowed_roots sb))"

definition assert_path_allowed :: "Sandbox \<Rightarrow> string \<Rightarrow> SandboxViolation + unit" where
  "assert_path_allowed sb path =
     (let p = path_str (PurePosixPath path)
      in if \<not> prefix ''/'' p then Inl (SandboxViolation (''Remote path must be absolute: '' @ path))
         else if ''..'' \<in> set (path_parts (PurePosixPath p))
         then Inl (SandboxViolation (''Remote path contains '' @ [sq] @ ''..'' @ [sq] @ '' traversal: '' @ path))
         else (let roots = normalized_roots sb
               in if roots = []
                  then Inl (SandboxViolation
                    ''No allowed roots configured. Set at least one root in Main tab (Root-Sandbox).'')
                  else if list_ex (\<lambda>root. prefix root p) roots then Inr ()
                  else Inl (SandboxViolation (''Path is outside allowed roots: '' @ path))))"

text \<open>\<open>assert_all\<close> stops at the first path that is refused.\<close>

fun assert_all :: "Sandbox \<Rightarrow> string list \<Rightarrow> SandboxViolation + unit" where
  "assert_all sb [] = Inr ()"
| "assert_all sb (p # ps) =
     (case assert_path_allowed sb p of Inl e \<Rightarrow> Inl e | Inr _ \<Rightarrow> assert_all sb ps)"

section \<open>core/media_grouping.py\<close>

text \<open>A \<open>MediaFile\<close> is its path; these are its properties \<open>dir\<close>, \<open>name\<close>, \<open>suffix\<close>, \<open>stem\<close>.\<close>

definition mf_dir :: "string \<Rightarrow> string" where
  "mf_dir path = path_str (path_parent (PurePosixPath path))"

definition mf_name :: "string \<Rightarrow> string" where
  "mf_name path = path_name (PurePosixPath path)"

definition mf_suffix :: "string \<Rightarrow> string" where
  "mf_suffix path = py_lstrip ''.'' (py_lower (path_suffix (PurePosixPath path)))"

definition mf_stem :: "string \<Rightarrow> string" where
  "mf_stem path = path_stem (PurePosixPath path)"

record MediaGroup =
  directory :: string
  base_stem :: string
  video :: "string option"
  sidecars :: "string list"
  nfo :: "string option"

definition DEFAULT_VIDEO_EXTS :: "string set" where
  "DEFAULT_VIDEO_EXTS = {''mkv'', ''mp4'', ''avi'', ''mov''}"

definition DEFAULT_SIDECAR_EXTS :: "string set" where
  "DEFAULT_SIDECAR_EXTS =
     {''nfo'', ''jpg'', ''jpeg'', ''png'', ''webp'', ''srt'', ''ass'', ''ssa'', ''sub'', ''idx''}"

definition FOLDER_LEVEL_SIDECAR_NAMES :: "string set" where
  "FOLDER_LEVEL_SIDECAR_NAMES =
     {''poster.jpg'', ''poster.jpeg'', ''poster.png'', ''poster.webp'',
      ''fanart.jpg'', ''fanart.jpeg'', ''fanart.png'',
      ''backdrop.jpg'', ''backdrop.jpeg'', ''backdrop.png'',
      ''landscape.jpg'', ''landscape.jpeg'', ''landscape.png'',
      ''banner.jpg'', ''banner.jpeg'', ''banner.png'',
      ''logo.png'', ''logo.webp'', ''clearlogo.png'', ''clearlogo.webp'',
      ''clearart.png'', ''clearart.webp'', ''disc.png'', ''disc.webp'',
      ''thumb.jpg'', ''thumb.jpeg'', ''thumb.png'',
      ''folder.jpg'', ''folder.jpeg'', ''folder.png''}"

definition FOLDER_LEVEL_NFO_NAMES :: "string set" where
  "FOLDER_LEVEL_NFO_NAMES = {''movie.nfo''}"

text \<open>The body of the first loop over the files of the directory, for the video \<open>v\<close>.\<close>

definition stem_step :: "string set \<Rightarrow> string \<Rightarrow> MediaGroup \<Rightarrow> string \<Rightarrow> MediaGroup" where
  "stem_step sidecar_exts v g f =
     (if f = v then g
      else if mf_suffix f \<notin> sidecar_exts then g
      else if mf_name f = mf_stem v @ ''.nfo'' \<or> mf_suffix f = ''nfo'' \<and> mf_stem f = mf_stem v
      then g\<lparr>sidecars := sidecars g @ [f], nfo := Some f\<rparr>
      else if prefix (mf_stem v @ ''.'') (mf_name f) \<or> prefix (mf_stem v @ ''-'') (mf_name f)
      then g\<lparr>sidecars := sidecars g @ [f]\<rparr>
      else g)"

text \<open>The body of the second loop, run only when the directory has exactly one video.\<close>

definition folder_step :: "string set \<Rightarrow> string \<Rightarrow> MediaGroup \<Rightarrow> string \<Rightarrow> MediaGroup" where
  "folder_step sidecar_exts v g f =
     (if f = v then g
      else if mf_suffix f \<notin> sidecar_exts then g
      else (let nlow = py_lower (mf_name f)
            in if nlow \<in> FOLDER_LEVEL_NFO_NAMES \<and> mf_suffix f = ''nfo'' then
                 (let g1 = (if nfo g = None then g\<lparr>nfo := Some f\<rparr> else g)
                  in if f \<notin> set (sidecars g1) then g1\<lparr>sidecars := sidecars g1 @ [f]\<rparr> else g1)
               else if nlow \<in> FOLDER_LEVEL_SIDECAR_NAMES then
                 (if f \<notin> set (sidecars g) then g\<lparr>sidecars := sidecars g @ [f]\<rparr> else g)
               else g))"

definition build_group :: "string set \<Rightarrow> string \<Rightarrow> string list \<Rightarrow> string list \<Rightarrow> string \<Rightarrow> MediaGroup" where
  "build_group sidecar_exts d files videos v =
     (let g0 = \<lparr>directory = d, base_stem = mf_stem v, video = Some v, sidecars = [], nfo = None\<rparr>;
          g1 = foldl (stem_step sidecar_exts v) g0 files
      in if length videos = 1 then foldl (folder_step sidecar_exts v) g1 files else g1)"

definition groups_of_dir :: "string set \<Rightarrow> string set \<Rightarrow> string \<times> string list \<Rightarrow> MediaGroup list" where
  "groups_of_dir video_exts sidecar_exts df =
     (let videos = filter (\<lambda>f. mf_suffix f \<in> video_exts) (snd df)
      in map (build_group sidecar_exts (fst df) (snd df) videos)
             (sort_key (\<lambda>x. py_lower (mf_name x)) videos))"

definition bucket_step :: "(string \<times> string list) list \<Rightarrow> string \<Rightarrow> (string \<times> string list) list" where
  "bucket_step by_dir p = setdefault_append by_dir (mf_dir p) p"

definition group_media_files :: "string list \<Rightarrow> string set \<Rightarrow> string set \<Rightarrow> MediaGroup list" where
  "group_media_files paths video_exts sidecar_exts =
     concat (map (groups_of_dir video_exts sidecar_exts) (foldl bucket_step [] paths))"

section \<open>core/nfo.py\<close>

text \<open>
  The XML reader is the standard library's \<open>xml.etree.ElementTree\<close>; the model starts from
  the element that \<open>ET.fromstring\<close> returns (of the text itself, or of the text wrapped in
  \<open><root>\<close> when it has several top-level nodes).  An element has a tag, an optional text
  and its child elements.
\<close>

datatype Element = Element (el_tag: string) (el_text: "string option") (el_children: "Element list")

text \<open>\<open>root.find(tag)\<close> for a plain tag: the first child with that tag.\<close>

definition el_find :: "Element \<Rightarrow> string \<Rightarrow> Element option" where
  "el_find root t = List.find (\<lambda>e. el_tag e = t) (el_children root)"

text \<open>The helper \<open>_text\<close>.\<close>

definition nfo_text :: "Element \<Rightarrow> string \<Rightarrow> string option" where
  "nfo_text root t =
     (case el_find root t of
        None \<Rightarrow> None
      | Some el \<Rightarrow>
          (case el_text el of
             None \<Rightarrow> None
           | Some tx \<Rightarrow> (let s = py_strip tx in if s \<noteq> [] then Some s else None)))"

text \<open>\<open>\d\<close> among the code points below 256, and \<open>_IMDB_RE.search(s)\<close> for the pattern
  \<open>tt\d{3,10}\<close>: the leftmost match, with as many digits as the pattern allows.\<close>

definition re_digit :: "char \<Rightarrow> bool" where
  "re_digit c \<longleftrightarrow> 0x30 \<le> (of_char c :: nat) \<and> (of_char c :: nat) \<le> 0x39"

fun IMDB_RE_search :: "string \<Rightarrow> string option" where
  "IMDB_RE_search [] = None"
| "IMDB_RE_search (c # cs) =
     (if prefix ''tt'' (c # cs) \<and> 3 \<le> length (takeWhile re_digit (drop 2 (c # cs)))
      then Some (''tt'' @ take 10 (takeWhile re_digit (drop 2 (c # cs))))
      else IMDB_RE_search cs)"

text \<open>The element whose fields are read: under a root tagged \<open>root\<close>, the first child
  tagged \<open>movie\<close>, \<open>tvshow\<close> or \<open>episodedetails\<close>, when there is one.\<close>

definition nfo_root :: "Element \<Rightarrow> Element" where
  "nfo_root root =
     (if el_tag root = ''root'' then
        (case List.find (\<lambda>child. el_tag child \<in> {''movie'', ''tvshow'', ''episodedetails''})
                (el_children root) of
           Some child \<Rightarrow> child
         | None \<Rightarrow> root)
      else root)"

text \<open>\<open>a or b\<close> on optional strings.\<close>

definition py_or :: "string option \<Rightarrow> string option \<Rightarrow> string option" where
  "py_or a b = (if truthy a then a else b)"

text \<open>The \<open>imdbid\<close> field of the \<open>NfoInfo\<close> that \<open>parse_nfo\<close> returns.\<close>

definition parse_nfo_imdbid :: "Element \<Rightarrow> string option" where
  "parse_nfo_imdbid root0 =
     (let root = nfo_root root0;
          imdb_raw = py_or (nfo_text root ''imdbid'')
                    (py_or (nfo_text root ''imdb_id'')
                    (py_or (nfo_text root ''imdb'')
                    (py_or (nfo_text root ''id'') (nfo_text root ''uniqueid''))))
      in if truthy imdb_raw then IMDB_RE_search (or_empty imdb_raw) else None)"

text \<open>The document of \<open>test_parse_nfo_imdb_in_id_field\<close>, as the reader returns it.\<close>

definition alien_nfo :: Element where
  "alien_nfo =
     Element ''movie'' (Some [CHR 0x0a, CHR '' '', CHR '' ''])
       [Element ''title'' (Some ''Alien'') [],
        Element ''year'' (Some ''1979'') [],
        Element ''id'' (Some ''tt0078748'') []]"

section \<open>infra/index_update.py\<close>

subsection \<open>The table \<open>files\<close> and the statements run on it\<close>

text \<open>
  The catalog is the table \<open>files\<close> of \<open>infra/sqlite_index.py\<close>: rows in rowid order,
  \<open>path\<close> the primary key.  The statements are given the meaning they have in SQLite:
  \<open>LIKE\<close> treats \<open>%\<close> as any run of characters and \<open>_\<close> as any one character and ignores
  the case of ASCII letters; \<open>REPLACE(X, Y, Z)\<close> replaces every occurrence of \<open>Y\<close> in \<open>X\<close>;
  \<open>=\<close> compares text exactly; an \<open>UPDATE\<close> that gives a row the path of another row fails.
\<close>

record file_row =
  row_path :: string
  row_dir :: string
  row_name :: string
  row_ext :: string
  row_root :: string
  row_scanned_at :: int

datatype index_error = IntegrityError

record IndexUpdateStats =
  inserted :: nat
  deleted :: nat
  updated_prefix :: nat

definition ascii_fold :: "char \<Rightarrow> char" where
  "ascii_fold c =
     (let n = (of_char c :: nat) in if 0x41 \<le> n \<and> n \<le> 0x5a then char_of (n + 0x20) else c)"

fun sql_like :: "string \<Rightarrow> string \<Rightarrow> bool" where
  "sql_like [] s = (s = [])"
| "sql_like (p # ps) s =
     (if p = CHR ''%'' then list_ex (\<lambda>t. sql_like ps t) (suffixes s)
      else (case s of
              [] \<Rightarrow> False
            | c # cs \<Rightarrow> (p = CHR ''_'' \<or> ascii_fold p = ascii_fold c) \<and> sql_like ps cs))"

definition sql_replace :: "string \<Rightarrow> string \<Rightarrow> string \<Rightarrow> string" where
  "sql_replace x y z = replace_all y z x"

text \<open>\<open>SELECT root FROM files WHERE path=?\<close>, first row.\<close>

definition sel_root :: "file_row list \<Rightarrow> string \<Rightarrow> string option" where
  "sel_root db p = map_option row_root (List.find (\<lambda>r. row_path r = p) db)"

text \<open>\<open>SELECT 1 FROM files WHERE path LIKE ? LIMIT 1\<close>: is there a row.\<close>

definition sel_any_prefix :: "file_row list \<Rightarrow> string \<Rightarrow> bool" where
  "sel_any_prefix db pat = list_ex (\<lambda>r. sql_like pat (row_path r)) db"

text \<open>\<open>DELETE FROM files WHERE path=?\<close>.\<close>

definition del_path :: "file_row list \<Rightarrow> string \<Rightarrow> file_row list" where
  "del_path db p = filter (\<lambda>r. row_path r \<noteq> p) db"

text \<open>\<open>INSERT ... ON CONFLICT(path) DO UPDATE SET ...\<close>.\<close>

definition upsert :: "file_row list \<Rightarrow> file_row \<Rightarrow> file_row list" where
  "upsert db row =
     (if list_ex (\<lambda>r. row_path r = row_path row) db
      then map (\<lambda>r. if row_path r = row_path row then row else r) db
      else db @ [row])"

text \<open>
  The statement \<open>upd_prefix\<close> with its eight parameters, row by row: \<open>seen\<close> are the rows
  already visited.  The result is the table and the number of rows the \<open>WHERE\<close> selected.
\<close>

fun upd_prefix_rows ::
  "string \<Rightarrow> string \<Rightarrow> string \<Rightarrow> string \<Rightarrow> string \<Rightarrow> string \<Rightarrow> int \<Rightarrow> string
     \<Rightarrow> file_row list \<Rightarrow> file_row list \<Rightarrow> nat \<Rightarrow> index_error + file_row list \<times> nat" where
  "upd_prefix_rows p1 p2 p3 p4 p5 p6 ts pat seen [] n = Inr (seen, n)"
| "upd_prefix_rows p1 p2 p3 p4 p5 p6 ts pat seen (r # rest) n =
     (if sql_like pat (row_path r) then
        (let r1 = r\<lparr>row_path := sql_replace (row_path r) p1 p2,
                     row_dir := (if row_dir r = p3 then p4 else sql_replace (row_dir r) p5 p6),
                     row_scanned_at := ts\<rparr>
         in if list_ex (\<lambda>x. row_path x = row_path r1) (seen @ rest) then Inl IntegrityError
            else upd_prefix_rows p1 p2 p3 p4 p5 p6 ts pat (seen @ [r1]) rest (Suc n))
      else upd_prefix_rows p1 p2 p3 p4 p5 p6 ts pat (seen @ [r]) rest n)"

definition upd_prefix ::
  "file_row list \<Rightarrow> string \<Rightarrow> string \<Rightarrow> string \<Rightarrow> string \<Rightarrow> string \<Rightarrow> string \<Rightarrow> int \<Rightarrow> string
     \<Rightarrow> index_error + file_row list \<times> nat" where
  "upd_prefix db p1 p2 p3 p4 p5 p6 ts pat = upd_prefix_rows p1 p2 p3 p4 p5 p6 ts pat [] db 0"

text \<open>\<open>distinct_roots(limit)\<close>: \<open>SELECT DISTINCT root FROM files ORDER BY root LIMIT ?\<close>.\<close>

definition distinct_roots :: "file_row list \<Rightarrow> nat \<Rightarrow> string list" where
  "distinct_roots db limit = take limit (sort (remdups (map row_root db)))"

subsection \<open>The helpers\<close>

text \<open>\<open>_split_remote_path\<close>: \<open>(dir, name, ext)\<close>.\<close>

definition split_remote_path :: "string \<Rightarrow> string \<times> string \<times> string" where
  "split_remote_path p =
     (let dn = (case py_rfind (CHR ''/'') p of
                  None \<Rightarrow> (''/'', p)
                | Some i \<Rightarrow> (if take i p = [] then ''/'' else take i p, drop (Suc i) p));
          nm = snd dn;
          ex = (case py_rfind (CHR ''.'') nm of
                  None \<Rightarrow> []
                | Some i \<Rightarrow> py_lower (drop (Suc i) nm))
      in (fst dn, nm, ex))"

definition normalize_root_marker :: "string \<Rightarrow> string" where
  "normalize_root_marker r0 =
     (let r = py_rstrip ''/'' (path_str (PurePosixPath r0)) in if r \<noteq> [] then r else ''/'')"

definition pick_root_for_path :: "string \<Rightarrow> string list \<Rightarrow> string option" where
  "pick_root_for_path p0 roots =
     (let p = path_str (PurePosixPath p0)
      in List.find (\<lambda>r. p = normalize_root_marker r \<or> prefix (normalize_root_marker r @ ''/'') p) roots)"

subsection \<open>\<open>apply_plan_to_index\<close>\<close>

text \<open>The root markers: those of the table, then the hints not yet among them, the
  longer ones first (the sort is stable).\<close>

definition index_roots :: "file_row list \<Rightarrow> string list \<Rightarrow> string list" where
  "index_roots db roots_hint =
     sort_key (\<lambda>x. - int (length (normalize_root_marker x)))
       (foldl (\<lambda>roots r. if r \<noteq> [] \<and> r \<notin> set roots then roots @ [r] else roots)
          (distinct_roots db 5000) roots_hint)"

definition new_row :: "string \<Rightarrow> string \<Rightarrow> int \<Rightarrow> file_row" where
  "new_row p rt ts =
     \<lparr>row_path = p, row_dir = fst (split_remote_path p), row_name = fst (snd (split_remote_path p)),
      row_ext = snd (snd (split_remote_path p)), row_root = rt, row_scanned_at = ts\<rparr>"

text \<open>One round of the loop over the selected operations; the state is the table and the
  statistics.\<close>

definition index_step ::
  "string list \<Rightarrow> int \<Rightarrow> file_row list \<times> IndexUpdateStats \<Rightarrow> Operation
     \<Rightarrow> index_error + file_row list \<times> IndexUpdateStats" where
  "index_step roots ts st op =
     (let db = fst st; stats = snd st
      in if kind op = MOVE \<or> kind op = RENAME then
           (if \<not> truthy (src op) \<or> \<not> truthy (dst op) then Inr (db, stats)
            else (let s = or_empty (src op); d = or_empty (dst op)
                  in case sel_root db s of
                       Some old_root \<Rightarrow>
                         (let db1 = del_path db s;
                              picked = pick_root_for_path d roots;
                              root_for_dst = (if truthy picked then or_empty picked else old_root)
                          in Inr (upsert db1 (new_row d root_for_dst ts),
                                  stats\<lparr>deleted := deleted stats + 1, inserted := inserted stats + 1\<rparr>))
                     | None \<Rightarrow>
                         (let src_dir = py_rstrip ''/'' (path_str (PurePosixPath s));
                              dst_dir = py_rstrip ''/'' (path_str (PurePosixPath d))
                          in if src_dir \<noteq> [] \<and> dst_dir \<noteq> [] \<and> src_dir \<noteq> dst_dir then
                               (let src_prefix = src_dir @ ''/''; dst_prefix = dst_dir @ ''/''
                                in if sel_any_prefix db (src_prefix @ ''%'') then
                                     (case upd_prefix db src_prefix dst_prefix src_dir dst_dir
                                             src_prefix dst_prefix ts (src_prefix @ ''%'') of
                                        Inl e \<Rightarrow> Inl e
                                      | Inr res \<Rightarrow>
                                          Inr (fst res,
                                               stats\<lparr>updated_prefix := updated_prefix stats + snd res\<rparr>))
                                   else Inr (db, stats))
                             else Inr (db, stats))))
         else if kind op = COPY \<or> kind op = LINK then
           (if \<not> truthy (dst op) then Inr (db, stats)
            else (let d = or_empty (dst op);
                      picked = pick_root_for_path d roots;
                      picked_src = (if truthy (src op) then pick_root_for_path (or_empty (src op)) roots
                                    else None);
                      root_for_dst = (if truthy picked then or_empty picked
                                      else if truthy picked_src then or_empty picked_src else [])
                  in Inr (upsert db (new_row d root_for_dst ts),
                          stats\<lparr>inserted := inserted stats + 1\<rparr>)))
         else Inr (db, stats))"

fun index_loop ::
  "string list \<Rightarrow> int \<Rightarrow> file_row list \<times> IndexUpdateStats \<Rightarrow> Operation list
     \<Rightarrow> index_error + file_row list \<times> IndexUpdateStats" where
  "index_loop roots ts st [] = Inr st"
| "index_loop roots ts st (op # ops) =
     (case index_step roots ts st op of
        Inl e \<Rightarrow> Inl e
      | Inr st1 \<Rightarrow> index_loop roots ts st1 ops)"

text \<open>
  \<open>apply_plan_to_index\<close> on the table \<open>db\<close> at time \<open>ts\<close>.  An error leaves the transaction
  uncommitted and is raised to the caller; otherwise the new table is committed and the
  statistics are returned.
\<close>

definition apply_plan_to_index ::
  "file_row list \<Rightarrow> int \<Rightarrow> Plan \<Rightarrow> string list \<Rightarrow> index_error + file_row list \<times> IndexUpdateStats" where
  "apply_plan_to_index db ts plan roots_hint =
     index_loop (index_roots db roots_hint) ts
       (db, \<lparr>inserted = 0, deleted = 0, updated_prefix = 0\<rparr>)
       (filter selected (operations plan))"

section \<open>Predicates used in the proofs\<close>

text \<open>The names of a path: slash-free, not empty, not a dot.\<close>

definition proper_names :: "string list \<Rightarrow> bool" where
  "proper_names names \<longleftrightarrow> (\<forall>x \<in> set names. CHR ''/'' \<notin> set x \<and> x \<noteq> [] \<and> x \<noteq> ''.'')"

section \<open>Quoting: which strings are refused, and the literal returned\<close>

lemma replace_all_char:
  "replace_all [c] new s = concat (map (\<lambda>x. if x = c then new else [x]) s)"
  by (induction s) auto

lemma CONTROL_RE_iff:
  "CONTROL_RE c \<longleftrightarrow> (of_char c :: nat) \<le> 8 \<or> (of_char c :: nat) = 11 \<or> (of_char c :: nat) = 12
      \<or> (14 \<le> (of_char c :: nat) \<and> (of_char c :: nat) \<le> 31) \<or> (of_char c :: nat) = 127"
  unfolding CONTROL_RE_def set_append set_upt
  by (simp only: Un_iff atLeastLessThan_iff list.set insert_iff empty_iff) arith

text \<open>
  What \<open>bash_quote\<close> computes: it raises \<open>QuoteError\<close> exactly for the strings holding a
  character of the class of \<open>_CONTROL_RE\<close> (0x00-0x08, 0x0B, 0x0C, 0x0E-0x1F, 0x7F); every
  other string comes back between single quotes with each embedded single quote replaced by
  quote, double-quoted quote, quote; the empty string gives two single quotes.
\<close>

lemma bash_quote_computes:
  "(isl (bash_quote s) \<longleftrightarrow>
      (\<exists>c \<in> set s. (of_char c :: nat) \<le> 8 \<or> (of_char c :: nat) = 11 \<or> (of_char c :: nat) = 12
          \<or> (14 \<le> (of_char c :: nat) \<and> (of_char c :: nat) \<le> 31) \<or> (of_char c :: nat) = 127))
   \<and> (\<not> isl (bash_quote s) \<longrightarrow>
        bash_quote s =
          Inr ([sq] @ concat (map (\<lambda>c. if c = sq then [sq, dq, sq, dq, sq] else [c]) s) @ [sq]))
   \<and> bash_quote [] = Inr [sq, sq]"
proof -
  have nul: "CHR 0x00 \<in> set s \<Longrightarrow> list_ex CONTROL_RE s"
    by (auto simp: list_ex_iff CONTROL_RE_iff intro!: bexI [of _ "CHR 0x00"])
  show ?thesis
    using nul
    by (auto simp: bash_quote_def assert_safe_text_def list_ex_iff CONTROL_RE_iff
        py_replace_def replace_all_char split: sum.splits)
qed

text \<open>
  Claim C1 does not hold of the source.  The docstring of \<open>assert_safe_text\<close> says that
  control characters are disallowed because they break logs and scripts, and the claim asks
  for a \<open>QuoteError\<close> on every character in 0x00-0x1F and on 0x7F; but the class of
  \<open>_CONTROL_RE\<close> leaves out tab (0x09), line feed (0x0A) and carriage return (0x0D).  For
  the strings \<open>a<TAB>b\<close>, \<open>a<LF>b\<close> and \<open>a<CR>b\<close> nothing is raised: \<open>bash_quote\<close> returns
  the string between single quotes, the control character inside.
\<close>

theorem bash_quote_quotes_tab_lf_cr:
  "(of_char (CHR 0x09) :: nat) \<le> 0x1F
   \<and> bash_quote [CHR ''a'', CHR 0x09, CHR ''b''] = Inr [sq, CHR ''a'', CHR 0x09, CHR ''b'', sq]
   \<and> (of_char (CHR 0x0a) :: nat) \<le> 0x1F
   \<and> bash_quote [CHR ''a'', CHR 0x0a, CHR ''b''] = Inr [sq, CHR ''a'', CHR 0x0a, CHR ''b'', sq]
   \<and> (of_char (CHR 0x0d) :: nat) \<le> 0x1F
   \<and> bash_quote [CHR ''a'', CHR 0x0d, CHR ''b''] = Inr [sq, CHR ''a'', CHR 0x0d, CHR ''b'', sq]"
  by (simp add: bash_quote_def assert_safe_text_def CONTROL_RE_def py_replace_def sq_def)

section \<open>Destination collisions\<close>

lemma map_of_setdefault_append:
  "map_of (setdefault_append acc k v) =
     (map_of acc)(k \<mapsto> (case map_of acc k of None \<Rightarrow> [v] | Some vs \<Rightarrow> vs @ [v]))"
  by (induction acc k v rule: setdefault_append.induct) (auto simp: fun_eq_iff)

lemma keys_setdefault_append:
  "map fst (setdefault_append acc k v) =
     (if k \<in> fst ` set acc then map fst acc else map fst acc @ [k])"
  by (induction acc k v rule: setdefault_append.induct) (auto simp: image_iff)

lemma distinct_keys_setdefault_append:
  "distinct (map fst acc) \<Longrightarrow> distinct (map fst (setdefault_append acc k v))"
  by (simp add: keys_setdefault_append)

lemma distinct_keys_by_dst:
  "distinct (map fst acc) \<Longrightarrow> distinct (map fst (foldl (by_dst_step ops) acc idxs))"
proof (induction idxs arbitrary: acc)
  case Nil
  then show ?case by simp
next
  case (Cons i idxs)
  have "distinct (map fst (by_dst_step ops acc i))"
    using Cons.prems by (simp add: by_dst_step_def distinct_keys_setdefault_append)
  from Cons.IH [OF this] show ?case by simp
qed

lemma map_of_by_dst:
  "map_of (foldl (by_dst_step ops) acc idxs) d =
     (let is = filter (\<lambda>i. truthy (dst (ops ! i)) \<and> or_empty (dst (ops ! i)) = d) idxs
      in if is = [] then map_of acc d
         else Some ((case map_of acc d of None \<Rightarrow> [] | Some zs \<Rightarrow> zs) @ is))"
proof (induction idxs arbitrary: acc)
  case Nil
  then show ?case by simp
next
  case (Cons i idxs)
  have step: "by_dst_step ops acc i =
      (if \<not> truthy (dst (ops ! i)) then acc
       else setdefault_append acc (or_empty (dst (ops ! i))) i)"
    by (simp add: by_dst_step_def)
  have "map_of (foldl (by_dst_step ops) acc (i # idxs)) d =
        map_of (foldl (by_dst_step ops) (by_dst_step ops acc i) idxs) d"
    by simp
  also have "\<dots> = (let is = filter (\<lambda>i. truthy (dst (ops ! i)) \<and> or_empty (dst (ops ! i)) = d) idxs
      in if is = [] then map_of (by_dst_step ops acc i) d
         else Some ((case map_of (by_dst_step ops acc i) d of None \<Rightarrow> [] | Some zs \<Rightarrow> zs) @ is))"
    by (rule Cons.IH)
  finally show ?case
    by (simp add: step map_of_setdefault_append Let_def split: option.splits)
qed

lemma truthy_dst_iff: "truthy x \<and> or_empty x = d \<longleftrightarrow> x = Some d \<and> d \<noteq> []"
  by (cases x) (auto simp: truthy_def or_empty_def)

lemma in_detect_iff:
  "(d, is) \<in> set (detect_destination_collisions p) \<longleftrightarrow>
     is = filter (\<lambda>i. selected (operations p ! i) \<and> dst (operations p ! i) = Some d \<and> d \<noteq> [])
            [0 ..< length (operations p)]
     \<and> length is > 1"
proof -
  let ?G = "foldl (by_dst_step (operations p)) [] (selected_positions (operations p))"
  have dist: "distinct (map fst ?G)"
    by (rule distinct_keys_by_dst) simp
  have "(d, is) \<in> set ?G \<longleftrightarrow> map_of ?G d = Some is"
    using dist by simp
  then show ?thesis
    unfolding detect_destination_collisions_def
    by (auto simp: map_of_by_dst Let_def selected_positions_def truthy_dst_iff conj_commute
        cong: conj_cong)
qed

lemma annotate_all_nth:
  "distinct is \<Longrightarrow> \<forall>i \<in> set is. i < length ops \<Longrightarrow>
   length (annotate_all ops (d, is)) = length ops \<and>
   (\<forall>k < length ops. annotate_all ops (d, is) ! k = (if k \<in> set is then annotate d (ops ! k) else ops ! k))"
  unfolding annotate_all_def
proof (induction "is" arbitrary: ops)
  case Nil
  then show ?case by simp
next
  case (Cons i "is")
  let ?ops1 = "ops[i := annotate d (ops ! i)]"
  have "length (foldl (\<lambda>os i. os[i := annotate (fst (d, is)) (os ! i)]) ?ops1 (snd (d, is))) = length ?ops1 \<and>
   (\<forall>k < length ?ops1. foldl (\<lambda>os i. os[i := annotate (fst (d, is)) (os ! i)]) ?ops1 (snd (d, is)) ! k
        = (if k \<in> set is then annotate d (?ops1 ! k) else ?ops1 ! k))"
    using Cons.prems by (intro Cons.IH) auto
  then show ?case
    using Cons.prems by (auto simp: nth_list_update)
qed

lemma dst_annotate [simp]: "dst (annotate d op) = dst op"
  and selected_annotate [simp]: "selected (annotate d op) = selected op"
  and kind_annotate [simp]: "kind (annotate d op) = kind op"
  and src_annotate [simp]: "src (annotate d op) = src op"
  and detail_annotate [simp]: "detail (annotate d op) = detail op"
  and op_id_annotate [simp]: "op_id (annotate d op) = op_id op"
  by (simp_all add: annotate_def)

lemma foldl_annotate_all_nth:
  assumes "distinct (map fst cs)"
    and "\<forall>(d, is) \<in> set cs. distinct is \<and> (\<forall>i \<in> set is. i < length ops \<and> dst (ops ! i) = Some d)"
  shows "length (foldl annotate_all ops cs) = length ops \<and>
     (\<forall>k < length ops. foldl annotate_all ops cs ! k =
        (if \<exists>c \<in> set cs. k \<in> set (snd c) then annotate (or_empty (dst (ops ! k))) (ops ! k)
         else ops ! k))"
  using assms
proof (induction cs arbitrary: ops)
  case Nil
  then show ?case by simp
next
  case (Cons c cs)
  obtain d "is" where c: "c = (d, is)" by (cases c)
  let ?ops1 = "annotate_all ops (d, is)"
  have dis: "distinct is" and lt: "\<forall>i \<in> set is. i < length ops"
    and dsts: "\<forall>i \<in> set is. dst (ops ! i) = Some d"
    using Cons.prems(2) c by auto
  have one: "length ?ops1 = length ops"
    "\<And>k. k < length ops \<Longrightarrow> ?ops1 ! k = (if k \<in> set is then annotate d (ops ! k) else ops ! k)"
    using annotate_all_nth [OF dis lt, of d] by auto
  have dst1: "\<And>k. k < length ops \<Longrightarrow> dst (?ops1 ! k) = dst (ops ! k)"
    by (simp add: one)
  have rest: "\<forall>(d', is') \<in> set cs. distinct is' \<and> (\<forall>i \<in> set is'. i < length ?ops1 \<and> dst (?ops1 ! i) = Some d')"
    using Cons.prems(2) by (auto simp: one(1) dst1)
  have IH: "length (foldl annotate_all ?ops1 cs) = length ?ops1 \<and>
     (\<forall>k < length ?ops1. foldl annotate_all ?ops1 cs ! k =
        (if \<exists>c \<in> set cs. k \<in> set (snd c) then annotate (or_empty (dst (?ops1 ! k))) (?ops1 ! k)
         else ?ops1 ! k))"
    using Cons.prems(1) rest by (intro Cons.IH) auto
  have disj: "\<And>k c'. k \<in> set is \<Longrightarrow> c' \<in> set cs \<Longrightarrow> k \<notin> set (snd c')"
  proof
    fix k c' assume k: "k \<in> set is" and c': "c' \<in> set cs" and k': "k \<in> set (snd c')"
    have "dst (ops ! k) = Some d" using dsts k by simp
    moreover have "dst (ops ! k) = Some (fst c')"
      using Cons.prems(2) c' k' by (cases c') auto
    ultimately have "fst c' = d" by simp
    then have "d \<in> fst ` set cs" using c' by force
    then show False using Cons.prems(1) c by simp
  qed
  show ?case
  proof (intro conjI allI impI)
    show "length (foldl annotate_all ops (c # cs)) = length ops"
      using IH one(1) c by simp
  next
    fix k assume k: "k < length ops"
    show "foldl annotate_all ops (c # cs) ! k =
        (if \<exists>c \<in> set (c # cs). k \<in> set (snd c) then annotate (or_empty (dst (ops ! k))) (ops ! k)
         else ops ! k)"
    proof (cases "k \<in> set is")
      case True
      then have "\<not> (\<exists>c \<in> set cs. k \<in> set (snd c))" using disj by blast
      then show ?thesis
        using IH k True c dsts by (simp add: one or_empty_def)
    next
      case False
      then show ?thesis
        using IH k c by (simp add: one dst1)
    qed
  qed
qed

lemma distinct_keys_detect: "distinct (map fst (detect_destination_collisions p))"
  unfolding detect_destination_collisions_def
  by (intro distinct_map_filter distinct_keys_by_dst) simp

lemma detect_members:
  "\<forall>(d, is) \<in> set (detect_destination_collisions p).
      distinct is \<and> (\<forall>i \<in> set is. i < length (operations p) \<and> dst (operations p ! i) = Some d)"
  by (auto simp: in_detect_iff)

lemma two_members_length: "a \<in> set xs \<Longrightarrow> b \<in> set xs \<Longrightarrow> a \<noteq> b \<Longrightarrow> 1 < length xs"
  by (cases xs; cases "tl xs") auto

lemma other_member: "distinct xs \<Longrightarrow> 1 < length xs \<Longrightarrow> a \<in> set xs \<Longrightarrow> \<exists>b \<in> set xs. b \<noteq> a"
  by (cases xs; cases "tl xs") auto

lemma in_collision_iff:
  "(\<exists>c \<in> set (detect_destination_collisions p). k \<in> set (snd c)) \<longleftrightarrow>
     k < length (operations p) \<and> selected (operations p ! k) \<and> truthy (dst (operations p ! k)) \<and>
     (\<exists>j < length (operations p). j \<noteq> k \<and> selected (operations p ! j)
          \<and> dst (operations p ! j) = dst (operations p ! k))"
  (is "?L \<longleftrightarrow> ?R")
proof
  assume ?L
  then obtain d "is" where c: "(d, is) \<in> set (detect_destination_collisions p)" and k: "k \<in> set is"
    by auto
  let ?is = "filter (\<lambda>i. selected (operations p ! i) \<and> dst (operations p ! i) = Some d \<and> d \<noteq> [])
            [0 ..< length (operations p)]"
  have eq: "is = ?is" and len: "1 < length is"
    using c by (auto simp: in_detect_iff)
  have "distinct is" using eq by simp
  then obtain j where j: "j \<in> set is" "j \<noteq> k"
    using other_member [OF _ len k] by blast
  have "k \<in> set ?is" "j \<in> set ?is" using k j eq by simp_all
  then show ?R using j(2) by (auto simp: truthy_def)
next
  assume R: ?R
  then obtain d where d: "dst (operations p ! k) = Some d" "d \<noteq> []"
    by (auto simp: truthy_def split: option.splits)
  from R obtain j where j: "j < length (operations p)" "j \<noteq> k" "selected (operations p ! j)"
    "dst (operations p ! j) = Some d"
    using d by auto
  let ?is = "filter (\<lambda>i. selected (operations p ! i) \<and> dst (operations p ! i) = Some d \<and> d \<noteq> [])
            [0 ..< length (operations p)]"
  have k_in: "k \<in> set ?is" and j_in: "j \<in> set ?is"
    using R d j by simp_all
  have "1 < length ?is"
    using two_members_length [OF k_in j_in] j(2) by simp
  then have "(d, ?is) \<in> set (detect_destination_collisions p)"
    by (simp add: in_detect_iff)
  then show ?L using k_in by force
qed

lemma operations_apply_collision_warnings:
  "operations (apply_collision_warnings p) = foldl annotate_all (operations p) (detect_destination_collisions p)"
  by (simp add: apply_collision_warnings_def Let_def)

lemma apply_collision_warnings_nth:
  "length (operations (apply_collision_warnings p)) = length (operations p) \<and>
   (\<forall>k < length (operations p). operations (apply_collision_warnings p) ! k =
      (if selected (operations p ! k) \<and> truthy (dst (operations p ! k)) \<and>
          (\<exists>j < length (operations p). j \<noteq> k \<and> selected (operations p ! j)
              \<and> dst (operations p ! j) = dst (operations p ! k))
       then annotate (or_empty (dst (operations p ! k))) (operations p ! k)
       else operations p ! k))"
  using foldl_annotate_all_nth [OF distinct_keys_detect detect_members, of p]
  by (simp add: operations_apply_collision_warnings in_collision_iff)

lemma warning_annotate_nonempty: "warning (annotate d op) \<noteq> []"
  by (simp add: annotate_def collision_message_def)

text \<open>
  Claim C3 as the source has it: after \<open>apply_collision_warnings\<close>, an operation that is
  selected, has a non-empty destination and shares it with another selected operation has a
  non-empty warning: its former warning, followed by \<open>; \<close> when it was not empty, and the
  collision message of its destination.  The method does not look for a message that is
  already there: a second call appends the same message to that warning once more.
\<close>

theorem apply_collision_warnings_annotates:
  assumes "k < length (operations p)" and "selected (operations p ! k)"
    and "dst (operations p ! k) = Some d" and "d \<noteq> []"
    and "j < length (operations p)" and "j \<noteq> k" and "selected (operations p ! j)"
    and "dst (operations p ! j) = Some d"
  shows "length (operations (apply_collision_warnings p)) = length (operations p)
    \<and> warning (operations (apply_collision_warnings p) ! k) \<noteq> []
    \<and> warning (operations (apply_collision_warnings p) ! k) =
        (if warning (operations p ! k) \<noteq> [] then warning (operations p ! k) @ ''; '' else [])
          @ ''Collision: multiple ops target '' @ d
    \<and> warning (operations (apply_collision_warnings (apply_collision_warnings p)) ! k) =
        warning (operations (apply_collision_warnings p) ! k) @ ''; Collision: multiple ops target '' @ d"
proof -
  let ?p1 = "apply_collision_warnings p"
  have coll: "selected (operations p ! k) \<and> truthy (dst (operations p ! k)) \<and>
          (\<exists>j < length (operations p). j \<noteq> k \<and> selected (operations p ! j)
              \<and> dst (operations p ! j) = dst (operations p ! k))"
    using assms by (auto simp: truthy_def)
  have len: "length (operations ?p1) = length (operations p)"
    using apply_collision_warnings_nth [of p] by simp
  have nth1: "operations ?p1 ! k = annotate d (operations p ! k)"
    using apply_collision_warnings_nth [of p] assms(1,3) coll by (simp add: or_empty_def)
  have nthj: "operations ?p1 ! j = annotate (or_empty (dst (operations p ! j))) (operations p ! j)
      \<or> operations ?p1 ! j = operations p ! j"
    using apply_collision_warnings_nth [of p] assms(5) by (simp split: if_splits)
  have coll1: "selected (operations ?p1 ! k) \<and> truthy (dst (operations ?p1 ! k)) \<and>
          (\<exists>j < length (operations ?p1). j \<noteq> k \<and> selected (operations ?p1 ! j)
              \<and> dst (operations ?p1 ! j) = dst (operations ?p1 ! k))"
    using assms nthj by (auto simp: nth1 len truthy_def intro!: exI [of _ j])
  have nth2: "operations (apply_collision_warnings ?p1) ! k = annotate d (operations ?p1 ! k)"
    using apply_collision_warnings_nth [of ?p1] assms(1,3) coll1 by (simp add: len nth1 or_empty_def)
  show ?thesis
    unfolding nth2 unfolding nth1
    by (simp add: len annotate_def collision_message_def)
qed

theorem apply_collision_warnings_annotates_witness:
  "warning (operations (apply_collision_warnings test_collision_plan) ! 0) \<noteq> []
   \<and> warning (operations (apply_collision_warnings test_collision_plan) ! 0) =
        ''Collision: multiple ops target /x''
   \<and> warning (operations (apply_collision_warnings (apply_collision_warnings test_collision_plan)) ! 0) =
        warning (operations (apply_collision_warnings test_collision_plan) ! 0)
          @ ''; Collision: multiple ops target /x''"
  using apply_collision_warnings_annotates [of 0 test_collision_plan "''/x''" 1]
  by (simp add: test_collision_plan_def)

text \<open>
  Claim C3 as the specification words it fails on the plan of the test suite: after two
  calls in succession both warnings hold the collision message twice, and the plan holds the
  summary warning twice.
\<close>

theorem apply_collision_warnings_twice_counterexample:
  "map warning (operations (apply_collision_warnings (apply_collision_warnings test_collision_plan))) =
     [''Collision: multiple ops target /x; Collision: multiple ops target /x'',
      ''Collision: multiple ops target /x; Collision: multiple ops target /x'']
   \<and> warnings (apply_collision_warnings (apply_collision_warnings test_collision_plan)) =
     [''1 destination collision(s) detected inside the plan.'',
      ''1 destination collision(s) detected inside the plan.'']"
  by code_simp

section \<open>The undo plan\<close>

lemma foldl_undo_step:
  "foldl (undo_step omr) (us, sk) xs =
     (us @ map (\<lambda>op. \<lparr>kind = MOVE, src = dst op, dst = src op,
                        detail = py_strip (''UNDO '' @ detail op),
                        selected = True, warning = [], op_id = []\<rparr>)
            (filter (\<lambda>op. (kind op = MOVE \<or> kind op = RENAME) \<and> truthy (src op) \<and> truthy (dst op)) xs),
      sk @ map (\<lambda>op. if omr
                      then ''Skip undo for '' @ kind_value (kind op) @ '': '' @ or_empty (src op)
                             @ '' -> '' @ or_empty (dst op)
                      else ''Unsupported undo op: '' @ kind_value (kind op))
             (filter (\<lambda>op. kind op = LINK \<or> kind op = COPY) xs))"
proof (induction xs arbitrary: us sk)
  case Nil
  then show ?case by simp
next
  case (Cons x xs)
  let ?inv = "\<lambda>op. \<lparr>kind = MOVE, src = dst op, dst = src op,
                        detail = py_strip (''UNDO '' @ detail op),
                        selected = True, warning = [], op_id = []\<rparr>"
  let ?ok = "\<lambda>op. (kind op = MOVE \<or> kind op = RENAME) \<and> truthy (src op) \<and> truthy (dst op)"
  let ?msg = "\<lambda>op. if omr
                      then ''Skip undo for '' @ kind_value (kind op) @ '': '' @ or_empty (src op)
                             @ '' -> '' @ or_empty (dst op)
                      else ''Unsupported undo op: '' @ kind_value (kind op)"
  let ?lc = "\<lambda>op. kind op = LINK \<or> kind op = COPY"
  have step: "undo_step omr (us, sk) x = (us @ map ?inv (filter ?ok [x]), sk @ map ?msg (filter ?lc [x]))"
    by (cases "kind x") (simp_all add: undo_step_def Let_def)
  have "foldl (undo_step omr) (us, sk) (x # xs) =
      foldl (undo_step omr) (us @ map ?inv (filter ?ok [x]), sk @ map ?msg (filter ?lc [x])) xs"
    by (simp only: foldl_Cons step)
  also have "\<dots> = ((us @ map ?inv (filter ?ok [x])) @ map ?inv (filter ?ok xs),
                     (sk @ map ?msg (filter ?lc [x])) @ map ?msg (filter ?lc xs))"
    by (rule Cons.IH)
  also have "\<dots> = (us @ map ?inv (filter ?ok (x # xs)), sk @ map ?msg (filter ?lc (x # xs)))"
    by simp
  finally show ?case .
qed

lemma apply_collision_warnings_fields:
  assumes "k < length (operations p)"
  shows "kind (operations (apply_collision_warnings p) ! k) = kind (operations p ! k)"
    and "src (operations (apply_collision_warnings p) ! k) = src (operations p ! k)"
    and "dst (operations (apply_collision_warnings p) ! k) = dst (operations p ! k)"
    and "detail (operations (apply_collision_warnings p) ! k) = detail (operations p ! k)"
    and "selected (operations (apply_collision_warnings p) ! k) = selected (operations p ! k)"
  using apply_collision_warnings_nth [of p] assms by simp_all

lemma map_fields_apply_collision_warnings:
  "map (\<lambda>op. (kind op, src op, dst op, detail op, selected op)) (operations (apply_collision_warnings p))
   = map (\<lambda>op. (kind op, src op, dst op, detail op, selected op)) (operations p)"
proof (rule nth_equalityI)
  show "length (map (\<lambda>op. (kind op, src op, dst op, detail op, selected op)) (operations (apply_collision_warnings p)))
      = length (map (\<lambda>op. (kind op, src op, dst op, detail op, selected op)) (operations p))"
    using apply_collision_warnings_nth [of p] by simp
next
  fix i assume "i < length (map (\<lambda>op. (kind op, src op, dst op, detail op, selected op)) (operations (apply_collision_warnings p)))"
  then have i: "i < length (operations p)"
    using apply_collision_warnings_nth [of p] by simp
  then have i': "i < length (operations (apply_collision_warnings p))"
    using apply_collision_warnings_nth [of p] by simp
  show "map (\<lambda>op. (kind op, src op, dst op, detail op, selected op)) (operations (apply_collision_warnings p)) ! i
      = map (\<lambda>op. (kind op, src op, dst op, detail op, selected op)) (operations p) ! i"
    using i i' by (simp add: apply_collision_warnings_fields)
qed

lemma operations_foldl_add_warning: "operations (foldl add_warning p ms) = operations p"
  by (induction ms arbitrary: p) (simp_all add: add_warning_def)

lemma warnings_foldl_add_warning: "set (warnings (foldl add_warning p ms)) = set (warnings p) \<union> set ms"
  by (induction ms arbitrary: p) (auto simp: add_warning_def)

lemma operations_build_undo_plan:
  "operations (fst (build_undo_plan ops ttl omr)) =
     operations (apply_collision_warnings
        \<lparr>title = ttl, operations = fst (foldl (undo_step omr) ([], []) (rev ops)), warnings = []\<rparr>)"
  by (simp add: build_undo_plan_def Let_def operations_foldl_add_warning extend_plan_def)

lemma py_strip_keeps_head:
  assumes "a \<noteq> []" and "\<not> py_isspace (hd a)" and "\<not> py_isspace (last a)"
  shows "prefix a (py_strip (a @ b))"
proof -
  have 1: "dropWhile py_isspace (a @ b) = a @ b"
    using assms(1,2) by (cases a) simp_all
  have 2: "dropWhile py_isspace (rev a) = rev a"
    using assms(1,3) by (cases "rev a") (simp_all add: last_rev [symmetric] del: last_rev)
  have "dropWhile py_isspace (rev b @ rev a) =
      (if \<forall>x \<in> set (rev b). py_isspace x then rev a else dropWhile py_isspace (rev b) @ rev a)"
    using 2 by (simp add: dropWhile_append)
  then show ?thesis
    unfolding py_strip_def 1 by (auto simp: prefix_def)
qed

lemma UNDO_marker: "prefix ''UNDO'' (py_strip (''UNDO '' @ d))"
  using py_strip_keeps_head [of "''UNDO''" "CHR '' '' # d"] by (simp add: py_isspace_def)

text \<open>
  Claim C4: \<open>build_undo_plan\<close> walks the executed operations in reverse order and gives,
  for each move or rename that has a source and a destination, exactly one selected move
  with source and destination swapped, whose detail starts with \<open>UNDO\<close>; nothing else
  becomes an operation of the plan.  For the three-step swap \<open>/a \<rightarrow> /tmp\<close>, \<open>/b \<rightarrow> /a\<close>,
  \<open>/tmp \<rightarrow> /b\<close> the plan's operations are \<open>/b \<rightarrow> /tmp\<close>, \<open>/a \<rightarrow> /b\<close>, \<open>/tmp \<rightarrow> /a\<close>.
\<close>

theorem build_undo_plan_inverts_in_reverse:
  "map (\<lambda>op. (kind op, src op, dst op, detail op, selected op))
       (operations (fst (build_undo_plan executed_ops ttl only_mv_rename)))
   = map (\<lambda>op. (MOVE, dst op, src op, py_strip (''UNDO '' @ detail op), True))
       (filter (\<lambda>op. (kind op = MOVE \<or> kind op = RENAME) \<and> truthy (src op) \<and> truthy (dst op))
          (rev executed_ops))
   \<and> (\<forall>u \<in> set (operations (fst (build_undo_plan executed_ops ttl only_mv_rename))).
          prefix ''UNDO'' (detail u))
   \<and> operations (fst (build_undo_plan
          [new_operation MOVE (Some ''/a'') (Some ''/tmp''),
           new_operation MOVE (Some ''/b'') (Some ''/a''),
           new_operation MOVE (Some ''/tmp'') (Some ''/b'')] ttl only_mv_rename))
      = [(new_operation MOVE (Some ''/b'') (Some ''/tmp''))\<lparr>detail := ''UNDO''\<rparr>,
         (new_operation MOVE (Some ''/a'') (Some ''/b''))\<lparr>detail := ''UNDO''\<rparr>,
         (new_operation MOVE (Some ''/tmp'') (Some ''/a''))\<lparr>detail := ''UNDO''\<rparr>]"
proof (intro conjI)
  let ?f = "\<lambda>op. (kind op, src op, dst op, detail op, selected op)"
  show fields: "map ?f (operations (fst (build_undo_plan executed_ops ttl only_mv_rename)))
   = map (\<lambda>op. (MOVE, dst op, src op, py_strip (''UNDO '' @ detail op), True))
       (filter (\<lambda>op. (kind op = MOVE \<or> kind op = RENAME) \<and> truthy (src op) \<and> truthy (dst op))
          (rev executed_ops))"
    by (simp add: operations_build_undo_plan map_fields_apply_collision_warnings foldl_undo_step o_def)
  show "\<forall>u \<in> set (operations (fst (build_undo_plan executed_ops ttl only_mv_rename))).
          prefix ''UNDO'' (detail u)"
  proof
    fix u assume "u \<in> set (operations (fst (build_undo_plan executed_ops ttl only_mv_rename)))"
    then have "?f u \<in> set (map ?f (operations (fst (build_undo_plan executed_ops ttl only_mv_rename))))"
      by simp
    then have "\<exists>d. detail u = py_strip (''UNDO '' @ d)"
      unfolding fields by auto
    then obtain d where "detail u = py_strip (''UNDO '' @ d)" ..
    then show "prefix ''UNDO'' (detail u)" using UNDO_marker [of d] by simp
  qed
  show "operations (fst (build_undo_plan
          [new_operation MOVE (Some ''/a'') (Some ''/tmp''),
           new_operation MOVE (Some ''/b'') (Some ''/a''),
           new_operation MOVE (Some ''/tmp'') (Some ''/b'')] ttl only_mv_rename))
      = [(new_operation MOVE (Some ''/b'') (Some ''/tmp''))\<lparr>detail := ''UNDO''\<rparr>,
         (new_operation MOVE (Some ''/a'') (Some ''/b''))\<lparr>detail := ''UNDO''\<rparr>,
         (new_operation MOVE (Some ''/tmp'') (Some ''/a''))\<lparr>detail := ''UNDO''\<rparr>]"
    by code_simp
qed

theorem build_undo_plan_inverts_in_reverse_witness:
  "map (\<lambda>op. (kind op, src op, dst op, detail op, selected op))
       (operations (fst (build_undo_plan
          [new_operation RENAME (Some ''/a'') (Some ''/b''),
           new_operation COPY (Some ''/c'') (Some ''/d''),
           new_operation MOVE None (Some ''/e''),
           (new_operation MOVE (Some ''/f'') (Some ''/g''))\<lparr>detail := ''x ''\<rparr>] ''Undo'' True)))
   = [(MOVE, Some ''/g'', Some ''/f'', ''UNDO x'', True), (MOVE, Some ''/b'', Some ''/a'', ''UNDO'', True)]
   \<and> prefix ''UNDO'' ''UNDO x''"
  using build_undo_plan_inverts_in_reverse [of
          "[new_operation RENAME (Some ''/a'') (Some ''/b''),
           new_operation COPY (Some ''/c'') (Some ''/d''),
           new_operation MOVE None (Some ''/e''),
           (new_operation MOVE (Some ''/f'') (Some ''/g''))\<lparr>detail := ''x ''\<rparr>]" "''Undo''" True]
  by (simp add: new_operation_def truthy_def py_strip_def py_isspace_def)

text \<open>
  Claim C7 as the source has it.  \<open>build_undo_plan\<close> has no failing branch: it returns a plan
  and the skip messages for every list of operations.  The skip messages are one message
  per hardlink or copy, in reverse order of execution, whatever \<open>only_mv_rename\<close> is (only
  the wording differs), and each of them is among the warnings of the returned plan.  A
  directory creation and a move or rename without source or destination give neither an
  operation nor a message.  The plan has one operation per move or rename with both
  endpoints, so it may have none; for no executed operation it is the empty plan.
\<close>

theorem build_undo_plan_skips:
  "snd (build_undo_plan executed_ops ttl only_mv_rename) =
     map (\<lambda>op. if only_mv_rename
                then ''Skip undo for '' @ kind_value (kind op) @ '': '' @ or_empty (src op)
                       @ '' -> '' @ or_empty (dst op)
                else ''Unsupported undo op: '' @ kind_value (kind op))
       (filter (\<lambda>op. kind op = LINK \<or> kind op = COPY) (rev executed_ops))
   \<and> set (snd (build_undo_plan executed_ops ttl only_mv_rename))
        \<subseteq> set (warnings (fst (build_undo_plan executed_ops ttl only_mv_rename)))
   \<and> length (operations (fst (build_undo_plan executed_ops ttl only_mv_rename))) =
       length (filter (\<lambda>op. (kind op = MOVE \<or> kind op = RENAME) \<and> truthy (src op) \<and> truthy (dst op))
          executed_ops)
   \<and> build_undo_plan [] ttl only_mv_rename = (\<lparr>title = ttl, operations = [], warnings = []\<rparr>, [])"
proof (intro conjI)
  show "snd (build_undo_plan executed_ops ttl only_mv_rename) =
     map (\<lambda>op. if only_mv_rename
                then ''Skip undo for '' @ kind_value (kind op) @ '': '' @ or_empty (src op)
                       @ '' -> '' @ or_empty (dst op)
                else ''Unsupported undo op: '' @ kind_value (kind op))
       (filter (\<lambda>op. kind op = LINK \<or> kind op = COPY) (rev executed_ops))"
    by (simp add: build_undo_plan_def Let_def foldl_undo_step)
  show "set (snd (build_undo_plan executed_ops ttl only_mv_rename))
        \<subseteq> set (warnings (fst (build_undo_plan executed_ops ttl only_mv_rename)))"
    by (simp add: build_undo_plan_def Let_def warnings_foldl_add_warning)
  have "length (operations (fst (build_undo_plan executed_ops ttl only_mv_rename))) =
       length (filter (\<lambda>op. (kind op = MOVE \<or> kind op = RENAME) \<and> truthy (src op) \<and> truthy (dst op))
          (rev executed_ops))"
    using apply_collision_warnings_nth
      [of "\<lparr>title = ttl, operations = fst (foldl (undo_step only_mv_rename) ([], []) (rev executed_ops)), warnings = []\<rparr>"]
    by (simp add: operations_build_undo_plan foldl_undo_step)
  then show "length (operations (fst (build_undo_plan executed_ops ttl only_mv_rename))) =
       length (filter (\<lambda>op. (kind op = MOVE \<or> kind op = RENAME) \<and> truthy (src op) \<and> truthy (dst op))
          executed_ops)"
    by (simp add: rev_filter [symmetric])
  show "build_undo_plan [] ttl only_mv_rename = (\<lparr>title = ttl, operations = [], warnings = []\<rparr>, [])"
    by (simp add: build_undo_plan_def Let_def extend_plan_def apply_collision_warnings_def
        detect_destination_collisions_def selected_positions_def)
qed

theorem build_undo_plan_skips_witness:
  "build_undo_plan [new_operation MKDIR None (Some ''/d''), new_operation COPY (Some ''/a'') (Some ''/b''),
       new_operation LINK (Some ''/a'') None] ''Undo'' True
   = (\<lparr>title = ''Undo'', operations = [],
       warnings = [''Skip undo for ln: /a -> '', ''Skip undo for cp: /a -> /b'']\<rparr>,
      [''Skip undo for ln: /a -> '', ''Skip undo for cp: /a -> /b''])
   \<and> set [''Skip undo for ln: /a -> '', ''Skip undo for cp: /a -> /b'']
      \<subseteq> set (warnings (fst (build_undo_plan [new_operation MKDIR None (Some ''/d''),
           new_operation COPY (Some ''/a'') (Some ''/b''), new_operation LINK (Some ''/a'') None] ''Undo'' True)))"
  using build_undo_plan_skips [of "[new_operation MKDIR None (Some ''/d''),
       new_operation COPY (Some ''/a'') (Some ''/b''), new_operation LINK (Some ''/a'') None]" "''Undo''" True]
  by code_simp

text \<open>
  Claim C7 as the specification words it fails: a move without a source is not inverted,
  and no skip message records it, neither in the returned list nor in the plan's warnings.
\<close>

theorem build_undo_plan_silent_counterexample:
  "build_undo_plan [new_operation MOVE None (Some ''/x'')] ''Undo'' True
     = (\<lparr>title = ''Undo'', operations = [], warnings = []\<rparr>, [])"
  by code_simp

section \<open>Quoting round trip\<close>

lemma read_tokens_single_quoted:
  "read_tokens (InQuote sq) es tok q
      (concat (map (\<lambda>c. if c = sq then [sq, dq, sq, dq, sq] else [c]) s) @ [sq])
   = Inr [tok @ s]"
proof (induction s arbitrary: es tok q)
  case Nil
  then show ?case by simp
next
  case (Cons c s)
  show ?case
  proof (cases "c = sq")
    case True
    have "read_tokens (InQuote sq) es tok q
        (concat (map (\<lambda>c. if c = sq then [sq, dq, sq, dq, sq] else [c]) (c # s)) @ [sq])
      = read_tokens (InQuote sq) es (tok @ [sq]) True
        (concat (map (\<lambda>c. if c = sq then [sq, dq, sq, dq, sq] else [c]) s) @ [sq])"
      using True
      by (simp add: shlex_whitespace_def shlex_quotes_def shlex_escape_def shlex_escapedquotes_def
          sq_def dq_def)
    then show ?thesis using True by (simp add: Cons.IH)
  next
    case False
    have "read_tokens (InQuote sq) es tok q
        (concat (map (\<lambda>c. if c = sq then [sq, dq, sq, dq, sq] else [c]) (c # s)) @ [sq])
      = read_tokens (InQuote sq) es (tok @ [c]) True
        (concat (map (\<lambda>c. if c = sq then [sq, dq, sq, dq, sq] else [c]) s) @ [sq])"
      using False by (simp add: shlex_escapedquotes_def sq_def dq_def)
    then show ?thesis by (simp add: Cons.IH)
  qed
qed

lemma shlex_split_single_quoted:
  "shlex_split ([sq] @ concat (map (\<lambda>c. if c = sq then [sq, dq, sq, dq, sq] else [c]) s) @ [sq]) = Inr [s]"
proof -
  have "shlex_split ([sq] @ concat (map (\<lambda>c. if c = sq then [sq, dq, sq, dq, sq] else [c]) s) @ [sq])
      = read_tokens (InQuote sq) InSpace [] False
          (concat (map (\<lambda>c. if c = sq then [sq, dq, sq, dq, sq] else [c]) s) @ [sq])"
    by (simp add: shlex_split_def shlex_whitespace_def shlex_quotes_def shlex_escape_def sq_def)
  then show ?thesis by (simp add: read_tokens_single_quoted)
qed

text \<open>
  Claim C2: for every string without an ASCII control character (0x00-0x1F, 0x7F),
  \<open>bash_quote\<close> returns a literal, and the shell-token parser \<open>shlex.split\<close> in POSIX mode
  reads that literal as exactly one token, the string itself.
\<close>

theorem bash_quote_round_trip:
  assumes "\<forall>c \<in> set s. \<not> ((of_char c :: nat) \<le> 0x1F \<or> (of_char c :: nat) = 0x7F)"
  shows "\<exists>q. bash_quote s = Inr q \<and> shlex_split q = Inr [s]"
proof -
  have "\<not> (\<exists>c \<in> set s. (of_char c :: nat) \<le> 8 \<or> (of_char c :: nat) = 11 \<or> (of_char c :: nat) = 12
          \<or> (14 \<le> (of_char c :: nat) \<and> (of_char c :: nat) \<le> 31) \<or> (of_char c :: nat) = 127)"
    using assms by auto
  then have "\<not> list_ex CONTROL_RE s"
    by (simp add: list_ex_iff CONTROL_RE_iff)
  moreover have "CHR 0x00 \<notin> set s"
    using assms by auto
  ultimately have "bash_quote s =
      Inr ([sq] @ concat (map (\<lambda>c. if c = sq then [sq, dq, sq, dq, sq] else [c]) s) @ [sq])"
    by (simp add: bash_quote_def assert_safe_text_def py_replace_def replace_all_char)
  then show ?thesis
    using shlex_split_single_quoted [of s] by simp
qed

theorem bash_quote_round_trip_witness:
  "(\<exists>q. bash_quote [CHR ''a'', sq, CHR '' '', CHR ''b''] = Inr q
        \<and> shlex_split q = Inr [[CHR ''a'', sq, CHR '' '', CHR ''b'']])
   \<and> (\<exists>q. bash_quote [] = Inr q \<and> shlex_split q = Inr [[]])"
  using bash_quote_round_trip [of "[CHR ''a'', sq, CHR '' '', CHR ''b'']"] bash_quote_round_trip [of "[]"]
  by (simp add: sq_def)

section \<open>Operations written to and read from the journal\<close>

lemma OperationKind_of_kind_value: "OperationKind_of (kind_value k) = Some k"
  by (cases k) (simp_all add: OperationKind_of_def)

lemma load_item_journal_dict:
  "load_item (Dict \<lparr>j_kind = Some (kind_value (kind op)), j_src = src op, j_dst = dst op,
                      j_detail = Some (detail op), j_warning = Some (warning op)\<rparr>)
   = [\<lparr>kind = kind op, src = src op, dst = dst op, detail = detail op, selected = True,
       warning = warning op, op_id = []\<rparr>]"
  by (simp add: load_item_def or_empty_def OperationKind_of_kind_value Let_def)

lemma load_ops_to_journal_dicts:
  "concat (map load_item (ops_to_journal_dicts ops)) =
     map (\<lambda>op. \<lparr>kind = kind op, src = src op, dst = dst op, detail = detail op, selected = True,
       warning = warning op, op_id = []\<rparr>) ops"
  unfolding ops_to_journal_dicts_def
  by (induction ops) (simp_all add: load_item_journal_dict)

text \<open>
  Claim C10 as the source has it: for a journal record whose \<open>ops\<close> field is
  \<open>ops_to_journal_dicts(ops)\<close> with \<open>ops\<close> not empty, \<open>ops_from_journal\<close> gives a list of
  the same length and order in which every operation has the kind, source, destination,
  detail and warning of the original and is selected.  For the empty list the \<open>ops\<close> field
  counts as absent, and the result is what \<open>parse_ops_from_script\<close> reads from the record's
  \<open>script\<close> field.
\<close>

theorem journal_round_trip_nonempty:
  assumes "rec_ops record = Some (ops_to_journal_dicts ops)"
  shows "(ops \<noteq> [] \<longrightarrow>
           length (ops_from_journal record) = length ops
           \<and> (\<forall>i < length ops.
                 kind (ops_from_journal record ! i) = kind (ops ! i)
               \<and> src (ops_from_journal record ! i) = src (ops ! i)
               \<and> dst (ops_from_journal record ! i) = dst (ops ! i)
               \<and> detail (ops_from_journal record ! i) = detail (ops ! i)
               \<and> warning (ops_from_journal record ! i) = warning (ops ! i)
               \<and> selected (ops_from_journal record ! i)))
       \<and> (ops = [] \<longrightarrow>
           ops_from_journal record = parse_ops_from_script (or_empty (rec_script record)))"
proof (cases ops)
  case Nil
  then show ?thesis using assms by (simp add: ops_from_journal_def ops_to_journal_dicts_def)
next
  case (Cons a as)
  then obtain item items where items: "ops_to_journal_dicts ops = item # items"
    by (simp add: ops_to_journal_dicts_def)
  have "ops_from_journal record = concat (map load_item (ops_to_journal_dicts ops))"
    using assms by (simp add: ops_from_journal_def items)
  then have eq: "ops_from_journal record =
     map (\<lambda>op. \<lparr>kind = kind op, src = src op, dst = dst op, detail = detail op, selected = True,
       warning = warning op, op_id = []\<rparr>) ops"
    by (simp only: load_ops_to_journal_dicts)
  have "ops \<noteq> []" using Cons by simp
  then show ?thesis
    unfolding eq by simp
qed

theorem journal_round_trip_nonempty_witness:
  "rec_ops \<lparr>rec_ops = Some (ops_to_journal_dicts
         [(new_operation LINK (Some ''/a'') (Some ''/b''))\<lparr>selected := False, warning := ''w''\<rparr>]),
       rec_script = Some ''safe_mv /c /d''\<rparr>
     = Some (ops_to_journal_dicts
         [(new_operation LINK (Some ''/a'') (Some ''/b''))\<lparr>selected := False, warning := ''w''\<rparr>])
   \<and> length (ops_from_journal \<lparr>rec_ops = Some (ops_to_journal_dicts
         [(new_operation LINK (Some ''/a'') (Some ''/b''))\<lparr>selected := False, warning := ''w''\<rparr>]),
       rec_script = Some ''safe_mv /c /d''\<rparr>) = 1
   \<and> kind (ops_from_journal \<lparr>rec_ops = Some (ops_to_journal_dicts
         [(new_operation LINK (Some ''/a'') (Some ''/b''))\<lparr>selected := False, warning := ''w''\<rparr>]),
       rec_script = Some ''safe_mv /c /d''\<rparr> ! 0) = LINK
   \<and> warning (ops_from_journal \<lparr>rec_ops = Some (ops_to_journal_dicts
         [(new_operation LINK (Some ''/a'') (Some ''/b''))\<lparr>selected := False, warning := ''w''\<rparr>]),
       rec_script = Some ''safe_mv /c /d''\<rparr> ! 0) = ''w''
   \<and> selected (ops_from_journal \<lparr>rec_ops = Some (ops_to_journal_dicts
         [(new_operation LINK (Some ''/a'') (Some ''/b''))\<lparr>selected := False, warning := ''w''\<rparr>]),
       rec_script = Some ''safe_mv /c /d''\<rparr> ! 0)"
  using journal_round_trip_nonempty [of
     "\<lparr>rec_ops = Some (ops_to_journal_dicts
         [(new_operation LINK (Some ''/a'') (Some ''/b''))\<lparr>selected := False, warning := ''w''\<rparr>]),
       rec_script = Some ''safe_mv /c /d''\<rparr>"
     "[(new_operation LINK (Some ''/a'') (Some ''/b''))\<lparr>selected := False, warning := ''w''\<rparr>]"]
  by (simp add: new_operation_def)

text \<open>
  Claim C10 as worded fails for the empty list: a record whose \<open>ops\<close> field is
  \<open>ops_to_journal_dicts([])\<close> and whose script calls \<open>safe_mv\<close> loads as one operation.
\<close>

theorem journal_round_trip_empty_counterexample:
  "length (ops_from_journal \<lparr>rec_ops = Some (ops_to_journal_dicts []), rec_script = Some ''safe_mv /a /b''\<rparr>)
     \<noteq> length ([] :: Operation list)
   \<and> ops_from_journal \<lparr>rec_ops = Some (ops_to_journal_dicts []), rec_script = Some ''safe_mv /a /b''\<rparr>
     = [new_operation MOVE (Some ''/a'') (Some ''/b'')]"
  by code_simp

section \<open>Path normalisation and the sandbox\<close>

lemma split_sep_nonempty: "split_sep c s \<noteq> []"
  by (induction s) (auto split: list.splits)

lemma split_sep_free: "x \<in> set (split_sep c s) \<Longrightarrow> c \<notin> set x"
proof (induction s arbitrary: x)
  case Nil
  then show ?case by simp
next
  case (Cons a s)
  then show ?case
    by (cases "split_sep c s") (auto split: if_splits)
qed

lemma split_sep_no_sep: "c \<notin> set s \<Longrightarrow> split_sep c s = [s]"
  by (induction s) auto

lemma split_sep_append_sep:
  "c \<notin> set x \<Longrightarrow> split_sep c (x @ c # s) = x # split_sep c s"
  by (induction x) auto

lemma split_join:
  "names \<noteq> [] \<Longrightarrow> \<forall>x \<in> set names. c \<notin> set x \<Longrightarrow> split_sep c (join_sep [c] names) = names"
  by (induction "[c]" names rule: join_sep.induct)
    (auto simp: split_sep_no_sep split_sep_append_sep)

lemma sep_in_join:
  "\<forall>x \<in> set names. c \<notin> set x \<Longrightarrow> c \<in> set (join_sep [c] names) \<longleftrightarrow> 2 \<le> length names"
  by (induction "[c]" names rule: join_sep.induct) auto

lemma hd_join:
  "names \<noteq> [] \<Longrightarrow> hd names \<noteq> [] \<Longrightarrow> hd (join_sep sep names) = hd (hd names)"
  by (induction sep names rule: join_sep.induct) auto

lemma join_nonempty:
  "names \<noteq> [] \<Longrightarrow> hd names \<noteq> [] \<Longrightarrow> join_sep sep names \<noteq> []"
  by (induction sep names rule: join_sep.induct) auto


lemma parsed_names:
  "(if CHR ''/'' \<in> set rel
    then filter (\<lambda>x. x \<noteq> [] \<and> x \<noteq> ''.'') (split_sep (CHR ''/'') rel)
    else if rel \<noteq> [] \<and> rel \<noteq> ''.'' then [rel] else [])
   = filter (\<lambda>x. x \<noteq> [] \<and> x \<noteq> ''.'') (split_sep (CHR ''/'') rel)"
  by (simp add: split_sep_no_sep)

lemma parse_parts_eq:
  "parse_parts part =
     (if part = [] then ([], [])
      else (fst (splitroot part),
            (if fst (splitroot part) \<noteq> [] then [fst (splitroot part)] else [])
              @ filter (\<lambda>x. x \<noteq> [] \<and> x \<noteq> ''.'') (split_sep (CHR ''/'') (snd (splitroot part)))))"
  unfolding parse_parts_def Let_def parsed_names by simp

lemma splitroot_cases:
  "splitroot part = ([], part) \<and> \<not> prefix ''/'' part
   \<or> (fst (splitroot part) = ''/'' \<or> fst (splitroot part) = ''//'') \<and> prefix ''/'' part
      \<and> snd (splitroot part) = dropWhile (\<lambda>c. c = CHR ''/'') part"
  by (cases part) (auto simp: splitroot_def Let_def py_lstrip_def)

lemma splitroot_rebuild:
  assumes "root = ''/'' \<or> root = ''//''" and "rel = [] \<or> hd rel \<noteq> CHR ''/''"
  shows "splitroot (root @ rel) = (root, rel)"
proof -
  have "dropWhile (\<lambda>c. c = CHR ''/'') rel = rel"
    using assms(2) by (cases rel) auto
  then show ?thesis
    using assms(1) by (auto simp: splitroot_def Let_def py_lstrip_def)
qed

lemma filter_proper: "proper_names names \<Longrightarrow> filter (\<lambda>x. x \<noteq> [] \<and> x \<noteq> ''.'') names = names"
  by (induction names) (auto simp: proper_names_def)

lemma parse_join:
  assumes "proper_names names"
  shows "filter (\<lambda>x. x \<noteq> [] \<and> x \<noteq> ''.'') (split_sep (CHR ''/'') (join_sep ''/'' names)) = names"
proof (cases names)
  case Nil
  then show ?thesis by simp
next
  case (Cons a list)
  then have "split_sep (CHR ''/'') (join_sep ''/'' names) = names"
    using assms by (intro split_join) (auto simp: proper_names_def)
  then show ?thesis using assms by (simp add: filter_proper)
qed

lemma join_proper_head:
  assumes "proper_names names"
  shows "join_sep ''/'' names = [] \<or> hd (join_sep ''/'' names) \<noteq> CHR ''/''"
proof (cases names)
  case Nil
  then show ?thesis by simp
next
  case (Cons a list)
  then have a: "a \<noteq> []" "CHR ''/'' \<notin> set a" using assms by (auto simp: proper_names_def)
  then have "hd a \<noteq> CHR ''/''" by (cases a) auto
  then show ?thesis using hd_join [of names "''/''"] Cons a by simp
qed

lemma parse_parts_shape:
  "\<exists>root names. parse_parts part = (root, (if root \<noteq> [] then [root] else []) @ names)
      \<and> (root = [] \<or> root = ''/'' \<or> root = ''//'') \<and> proper_names names
      \<and> (root \<noteq> [] \<longleftrightarrow> prefix ''/'' part)
      \<and> (''..'' \<in> set names \<longleftrightarrow> ''..'' \<in> set (split_sep (CHR ''/'') part))"
proof (cases "part = []")
  case True
  then show ?thesis by (simp add: parse_parts_eq proper_names_def)
next
  case False
  let ?rel = "snd (splitroot part)"
  let ?names = "filter (\<lambda>x. x \<noteq> [] \<and> x \<noteq> ''.'') (split_sep (CHR ''/'') ?rel)"
  have proper: "proper_names ?names"
    by (auto simp: proper_names_def dest: split_sep_free)
  have dots: "''..'' \<in> set (split_sep (CHR ''/'') (dropWhile (\<lambda>c. c = CHR ''/'') s))
      \<longleftrightarrow> ''..'' \<in> set (split_sep (CHR ''/'') s)" for s
    by (induction s) auto
  have "''..'' \<in> set ?names \<longleftrightarrow> ''..'' \<in> set (split_sep (CHR ''/'') part)"
    using splitroot_cases [of part] dots [of part] by auto
  then show ?thesis
    using False proper splitroot_cases [of part]
    by (intro exI [of _ "fst (splitroot part)"] exI [of _ ?names]) (auto simp: parse_parts_eq)
qed

lemma parse_parts_str:
  assumes "root = [] \<or> root = ''/'' \<or> root = ''//''" and "proper_names names"
  shows "parse_parts (path_str (root, (if root \<noteq> [] then [root] else []) @ names))
           = (root, (if root \<noteq> [] then [root] else []) @ names)"
proof (cases "root = []")
  case True
  show ?thesis
  proof (cases names)
    case Nil
    then show ?thesis using True by (simp add: path_str_def parse_parts_eq splitroot_def)
  next
    case (Cons a list)
    have ne: "join_sep ''/'' names \<noteq> []" and hd: "hd (join_sep ''/'' names) \<noteq> CHR ''/''"
      using join_proper_head [OF assms(2)] join_nonempty [of names "''/''"] Cons assms(2)
      by (auto simp: proper_names_def)
    then have "splitroot (join_sep ''/'' names) = ([], join_sep ''/'' names)"
      by (simp add: splitroot_def)
    then show ?thesis
      using True ne parse_join [OF assms(2)] by (simp add: path_str_def parse_parts_eq)
  qed
next
  case False
  then have root: "root = ''/'' \<or> root = ''//''" using assms(1) by simp
  have "splitroot (root @ join_sep ''/'' names) = (root, join_sep ''/'' names)"
    using splitroot_rebuild [OF root join_proper_head [OF assms(2)]] .
  then show ?thesis
    using False parse_join [OF assms(2)] by (simp add: path_str_def parse_parts_eq)
qed

lemma path_str_absolute:
  assumes "root = [] \<or> root = ''/'' \<or> root = ''//''" and "proper_names names"
  shows "prefix ''/'' (path_str (root, (if root \<noteq> [] then [root] else []) @ names)) \<longleftrightarrow> root \<noteq> []"
proof (cases "root = []")
  case True
  have "\<not> prefix ''/'' (join_sep ''/'' names)"
    using join_proper_head [OF assms(2)] by (cases "join_sep ''/'' names") auto
  then show ?thesis using True by (simp add: path_str_def Let_def)
next
  case False
  then show ?thesis using assms(1) by (auto simp: path_str_def)
qed

lemma PurePosixPath_normal:
  "PurePosixPath (path_str (PurePosixPath path)) = PurePosixPath path"
proof -
  obtain root names where p: "parse_parts path = (root, (if root \<noteq> [] then [root] else []) @ names)"
    and r: "root = [] \<or> root = ''/'' \<or> root = ''//''" and n: "proper_names names"
    using parse_parts_shape [of path] by blast
  show ?thesis
    unfolding PurePosixPath_def p by (rule parse_parts_str [OF r n])
qed

lemma path_str_absolute_iff:
  "prefix ''/'' (path_str (PurePosixPath path)) \<longleftrightarrow> prefix ''/'' path"
proof -
  obtain root names where p: "parse_parts path = (root, (if root \<noteq> [] then [root] else []) @ names)"
    and r: "root = [] \<or> root = ''/'' \<or> root = ''//''" and n: "proper_names names"
    and a: "root \<noteq> [] \<longleftrightarrow> prefix ''/'' path"
    using parse_parts_shape [of path] by blast
  show ?thesis
    unfolding PurePosixPath_def p using path_str_absolute [OF r n] a by simp
qed

lemma dotdot_parts_iff:
  "''..'' \<in> set (path_parts (PurePosixPath path)) \<longleftrightarrow> ''..'' \<in> set (split_sep (CHR ''/'') path)"
proof -
  obtain root names where p: "parse_parts path = (root, (if root \<noteq> [] then [root] else []) @ names)"
    and r: "root = [] \<or> root = ''/'' \<or> root = ''//''"
    and d: "''..'' \<in> set names \<longleftrightarrow> ''..'' \<in> set (split_sep (CHR ''/'') path)"
    using parse_parts_shape [of path] by blast
  show ?thesis
    unfolding PurePosixPath_def path_parts_def p using r d by auto
qed

lemma dotdot_normal_parts_iff:
  "''..'' \<in> set (path_parts (PurePosixPath (path_str (PurePosixPath path))))
     \<longleftrightarrow> ''..'' \<in> set (split_sep (CHR ''/'') path)"
  by (simp only: PurePosixPath_normal dotdot_parts_iff)

lemma normalized_roots_form:
  "r \<in> set (normalized_roots sb) \<Longrightarrow> prefix ''/'' r \<and> suffix ''/'' r"
  by (auto simp: normalized_roots_def Let_def prefix_def suffix_def split: if_splits)

lemma last_join:
  "names \<noteq> [] \<Longrightarrow> last names \<noteq> [] \<Longrightarrow>
   join_sep sep names \<noteq> [] \<and> last (join_sep sep names) = last (last names)"
  by (induction sep names rule: join_sep.induct) auto

lemma join_proper_last:
  assumes "proper_names names" and "names \<noteq> []"
  shows "join_sep ''/'' names \<noteq> [] \<and> last (join_sep ''/'' names) \<noteq> CHR ''/''"
proof -
  have l: "last names \<in> set names" using assms(2) by simp
  then have ne: "last names \<noteq> []" and free: "CHR ''/'' \<notin> set (last names)"
    using assms(1) by (auto simp: proper_names_def)
  have "last (last names) \<in> set (last names)" using ne by simp
  then have "last (last names) \<noteq> CHR ''/''" using free by auto
  then show ?thesis using last_join [OF assms(2) ne, of "''/''"] by simp
qed

lemma path_str_trailing_slash:
  "suffix ''/'' (path_str (PurePosixPath r)) \<longleftrightarrow>
     path_str (PurePosixPath r) = ''/'' \<or> path_str (PurePosixPath r) = ''//''"
proof -
  obtain root names where p: "parse_parts r = (root, (if root \<noteq> [] then [root] else []) @ names)"
    and rt: "root = [] \<or> root = ''/'' \<or> root = ''//''" and n: "proper_names names"
    using parse_parts_shape [of r] by blast
  show ?thesis
  proof (cases "names = []")
    case True
    then show ?thesis
      using rt unfolding PurePosixPath_def p by (auto simp: path_str_def suffix_def)
  next
    case False
    let ?j = "join_sep ''/'' names"
    have j: "?j \<noteq> []" "last ?j \<noteq> CHR ''/''"
      using join_proper_last [OF n False] by simp_all
    have str: "path_str (PurePosixPath r) = root @ ?j"
      unfolding PurePosixPath_def p using j(1) rt by (auto simp: path_str_def Let_def)
    have "last (root @ ?j) = last ?j" using j(1) by simp
    then have nolast: "last (root @ ?j) \<noteq> CHR ''/''" using j(2) by simp
    have ne: "root @ ?j \<noteq> []" using j(1) by simp
    have "\<not> suffix ''/'' (root @ ?j)"
    proof
      assume "suffix ''/'' (root @ ?j)"
      then obtain xs where "root @ ?j = xs @ ''/''" by (auto simp: suffix_def)
      then have "last (root @ ?j) = CHR ''/''" by simp
      then show False using nolast by simp
    qed
    moreover have "root @ ?j \<noteq> ''/''" "root @ ?j \<noteq> ''//''"
      using nolast by auto
    ultimately show ?thesis unfolding str by simp
  qed
qed

lemma normalized_roots_eq:
  "normalized_roots sb =
     map (\<lambda>r. if path_str (PurePosixPath r) = ''/'' \<or> path_str (PurePosixPath r) = ''//''
               then path_str (PurePosixPath r) else path_str (PurePosixPath r) @ ''/'')
         (filter (\<lambda>r. prefix ''/'' r) (allowed_roots sb))"
proof -
  have "concat (map (\<lambda>r. if r = [] then []
                       else (let rp = path_str (PurePosixPath r)
                             in if \<not> prefix ''/'' rp then []
                                else [if \<not> suffix ''/'' rp then rp @ ''/'' else rp])) rs)
      = map (\<lambda>r. if path_str (PurePosixPath r) = ''/'' \<or> path_str (PurePosixPath r) = ''//''
               then path_str (PurePosixPath r) else path_str (PurePosixPath r) @ ''/'')
         (filter (\<lambda>r. prefix ''/'' r) rs)" for rs
    by (induction rs) (auto simp: Let_def path_str_absolute_iff path_str_trailing_slash)
  then show ?thesis by (simp add: normalized_roots_def)
qed

text \<open>
  Claim C5: \<open>assert_path_allowed\<close> accepts a path exactly when the path is absolute (starts
  with a slash), none of its slash-separated components is \<open>..\<close>, and its normal form
  \<open>str(PurePosixPath(path))\<close> starts with one of the normalized roots.  The normalized roots
  are the allowed roots that are absolute, in their order, each as its normal form followed
  by a slash (the normal forms \<open>/\<close> and \<open>//\<close> stay as they are); so a path is accepted
  exactly when some absolute allowed root, so normalized, is a prefix of the path's normal
  form.  Every normalized root starts and ends with a slash.  \<open>/volume1/media/../etc/passwd\<close>
  is refused whatever the allowed roots are; with the root \<open>/volume1/media/\<close>,
  \<open>/volume1/media/Movies/X.mkv\<close> is accepted and \<open>/volume1/other/X.mkv\<close> is refused.
\<close>

theorem assert_path_allowed_iff:
  "(assert_path_allowed sb path = Inr () \<longleftrightarrow>
      prefix ''/'' path
      \<and> ''..'' \<notin> set (split_sep (CHR ''/'') path)
      \<and> (\<exists>root \<in> set (normalized_roots sb). prefix root (path_str (PurePosixPath path))))
   \<and> normalized_roots sb =
       map (\<lambda>r. if path_str (PurePosixPath r) = ''/'' \<or> path_str (PurePosixPath r) = ''//''
                 then path_str (PurePosixPath r) else path_str (PurePosixPath r) @ ''/'')
           (filter (\<lambda>r. prefix ''/'' r) (allowed_roots sb))
   \<and> (assert_path_allowed sb path = Inr () \<longleftrightarrow>
      prefix ''/'' path
      \<and> ''..'' \<notin> set (split_sep (CHR ''/'') path)
      \<and> (\<exists>r \<in> set (allowed_roots sb). prefix ''/'' r \<and>
            prefix (if path_str (PurePosixPath r) = ''/'' \<or> path_str (PurePosixPath r) = ''//''
                    then path_str (PurePosixPath r) else path_str (PurePosixPath r) @ ''/'')
                   (path_str (PurePosixPath path))))
   \<and> (\<forall>root \<in> set (normalized_roots sb). prefix ''/'' root \<and> suffix ''/'' root)
   \<and> isl (assert_path_allowed sb ''/volume1/media/../etc/passwd'')
   \<and> assert_path_allowed \<lparr>allowed_roots = [''/volume1/media/'']\<rparr> ''/volume1/media/Movies/X.mkv'' = Inr ()
   \<and> isl (assert_path_allowed \<lparr>allowed_roots = [''/volume1/media/'']\<rparr> ''/volume1/other/X.mkv'')
   \<and> isl (assert_path_allowed \<lparr>allowed_roots = [''/srv/data'']\<rparr> ''/volume1/media/x'')"
proof (intro conjI)
  show main: "assert_path_allowed sb path = Inr () \<longleftrightarrow>
      prefix ''/'' path
      \<and> ''..'' \<notin> set (split_sep (CHR ''/'') path)
      \<and> (\<exists>root \<in> set (normalized_roots sb). prefix root (path_str (PurePosixPath path)))"
    unfolding assert_path_allowed_def Let_def dotdot_normal_parts_iff path_str_absolute_iff
    by (auto simp: list_ex_iff)
  show "normalized_roots sb =
       map (\<lambda>r. if path_str (PurePosixPath r) = ''/'' \<or> path_str (PurePosixPath r) = ''//''
                 then path_str (PurePosixPath r) else path_str (PurePosixPath r) @ ''/'')
           (filter (\<lambda>r. prefix ''/'' r) (allowed_roots sb))"
    by (rule normalized_roots_eq)
  show "assert_path_allowed sb path = Inr () \<longleftrightarrow>
      prefix ''/'' path
      \<and> ''..'' \<notin> set (split_sep (CHR ''/'') path)
      \<and> (\<exists>r \<in> set (allowed_roots sb). prefix ''/'' r \<and>
            prefix (if path_str (PurePosixPath r) = ''/'' \<or> path_str (PurePosixPath r) = ''//''
                    then path_str (PurePosixPath r) else path_str (PurePosixPath r) @ ''/'')
                   (path_str (PurePosixPath path)))"
  proof -
    have ex: "(\<exists>y \<in> set (map f (filter P xs)). Q y) \<longleftrightarrow> (\<exists>x \<in> set xs. P x \<and> Q (f x))"
      for f :: "string \<Rightarrow> string" and P xs Q
      by auto
    show ?thesis
      by (simp only: main normalized_roots_eq ex)
  qed
  show "\<forall>root \<in> set (normalized_roots sb). prefix ''/'' root \<and> suffix ''/'' root"
    using normalized_roots_form by blast
  have "''..'' \<in> set (split_sep (CHR ''/'') ''/volume1/media/../etc/passwd'')"
    by simp
  then show "isl (assert_path_allowed sb ''/volume1/media/../etc/passwd'')"
    unfolding assert_path_allowed_def Let_def dotdot_normal_parts_iff path_str_absolute_iff
    by simp
  show "assert_path_allowed \<lparr>allowed_roots = [''/volume1/media/'']\<rparr> ''/volume1/media/Movies/X.mkv'' = Inr ()"
    by code_simp
  show "isl (assert_path_allowed \<lparr>allowed_roots = [''/volume1/media/'']\<rparr> ''/volume1/other/X.mkv'')"
    by code_simp
  show "isl (assert_path_allowed \<lparr>allowed_roots = [''/srv/data'']\<rparr> ''/volume1/media/x'')"
    by code_simp
qed

theorem assert_path_allowed_iff_witness:
  "assert_path_allowed \<lparr>allowed_roots = [''rel'', ''/volume1/media'']\<rparr> ''/volume1/media/Movies/X.mkv'' = Inr ()
   \<and> prefix ''/volume1/media/'' (path_str (PurePosixPath ''/volume1/media/Movies/X.mkv''))
   \<and> normalized_roots \<lparr>allowed_roots = [''rel'', ''/volume1/media'']\<rparr> = [''/volume1/media/'']
   \<and> assert_path_allowed \<lparr>allowed_roots = [''rel'', ''/volume1/media'']\<rparr> ''/volume1/other/X.mkv'' \<noteq> Inr ()"
proof -
  have 1: "assert_path_allowed \<lparr>allowed_roots = [''rel'', ''/volume1/media'']\<rparr> ''/volume1/media/Movies/X.mkv'' = Inr ()"
    by code_simp
  have 2: "prefix ''/volume1/media/'' (path_str (PurePosixPath ''/volume1/media/Movies/X.mkv''))"
    by code_simp
  have 3: "normalized_roots \<lparr>allowed_roots = [''rel'', ''/volume1/media'']\<rparr> = [''/volume1/media/'']"
    by code_simp
  have 4: "path_str (PurePosixPath ''/volume1/other/X.mkv'') = ''/volume1/other/X.mkv''"
    by code_simp
  show ?thesis
    using assert_path_allowed_iff [of "\<lparr>allowed_roots = [''rel'', ''/volume1/media'']\<rparr>" "''/volume1/other/X.mkv''"]
    unfolding 3 4 using 1 2 by simp
qed

section \<open>Media grouping\<close>

lemma distinct_keys_buckets:
  "distinct (map fst acc) \<Longrightarrow> distinct (map fst (foldl bucket_step acc paths))"
proof (induction paths arbitrary: acc)
  case Nil
  then show ?case by simp
next
  case (Cons p paths)
  have "distinct (map fst (bucket_step acc p))"
    using Cons.prems by (simp add: bucket_step_def distinct_keys_setdefault_append)
  from Cons.IH [OF this] show ?case by simp
qed

lemma map_of_buckets:
  "map_of (foldl bucket_step acc paths) d =
     (let fs = filter (\<lambda>p. mf_dir p = d) paths
      in if fs = [] then map_of acc d
         else Some ((case map_of acc d of None \<Rightarrow> [] | Some zs \<Rightarrow> zs) @ fs))"
proof (induction paths arbitrary: acc)
  case Nil
  then show ?case by simp
next
  case (Cons p paths)
  have step: "bucket_step acc p = setdefault_append acc (mf_dir p) p"
    by (simp add: bucket_step_def)
  have "map_of (foldl bucket_step acc (p # paths)) d = map_of (foldl bucket_step (bucket_step acc p) paths) d"
    by simp
  also have "\<dots> = (let fs = filter (\<lambda>p. mf_dir p = d) paths
      in if fs = [] then map_of (bucket_step acc p) d
         else Some ((case map_of (bucket_step acc p) d of None \<Rightarrow> [] | Some zs \<Rightarrow> zs) @ fs))"
    by (rule Cons.IH)
  finally show ?case
    by (simp add: step map_of_setdefault_append Let_def split: option.splits)
qed

lemma in_buckets_iff:
  "(d, files) \<in> set (foldl bucket_step [] paths) \<longleftrightarrow>
     files = filter (\<lambda>p. mf_dir p = d) paths \<and> files \<noteq> []"
proof -
  have "distinct (map fst (foldl bucket_step [] paths))"
    by (rule distinct_keys_buckets) simp
  then have "(d, files) \<in> set (foldl bucket_step [] paths) \<longleftrightarrow> map_of (foldl bucket_step [] paths) d = Some files"
    by simp
  then show ?thesis
    by (auto simp: map_of_buckets Let_def)
qed

lemma foldl_sidecar_steps:
  assumes "\<And>g f. directory (step g f) = directory g"
    and "\<And>g f. video (step g f) = video g"
    and "\<And>g f. set (sidecars (step g f)) = set (sidecars g) \<union> (if P f then {f} else {})"
  shows "directory (foldl step g files) = directory g
   \<and> video (foldl step g files) = video g
   \<and> set (sidecars (foldl step g files)) = set (sidecars g) \<union> {f \<in> set files. P f}"
proof (induction files arbitrary: g)
  case Nil
  then show ?case by simp
next
  case (Cons f files)
  show ?case
    using Cons.IH [of "step g f"] by (auto simp: assms split: if_splits)
qed

lemma foldl_stem_step:
  "directory (foldl (stem_step se v) g files) = directory g
   \<and> video (foldl (stem_step se v) g files) = video g
   \<and> set (sidecars (foldl (stem_step se v) g files)) =
       set (sidecars g) \<union>
       {f \<in> set files. f \<noteq> v \<and> mf_suffix f \<in> se \<and>
          (mf_name f = mf_stem v @ ''.nfo'' \<or> mf_suffix f = ''nfo'' \<and> mf_stem f = mf_stem v
           \<or> prefix (mf_stem v @ ''.'') (mf_name f) \<or> prefix (mf_stem v @ ''-'') (mf_name f))}"
  by (rule foldl_sidecar_steps) (auto simp: stem_step_def)

lemma foldl_folder_step:
  "directory (foldl (folder_step se v) g files) = directory g
   \<and> video (foldl (folder_step se v) g files) = video g
   \<and> set (sidecars (foldl (folder_step se v) g files)) =
       set (sidecars g) \<union>
       {f \<in> set files. f \<noteq> v \<and> mf_suffix f \<in> se \<and>
          (py_lower (mf_name f) \<in> FOLDER_LEVEL_NFO_NAMES \<and> mf_suffix f = ''nfo''
           \<or> py_lower (mf_name f) \<in> FOLDER_LEVEL_SIDECAR_NAMES)}"
  by (rule foldl_sidecar_steps) (auto simp: folder_step_def Let_def)

lemma build_group_fields:
  "directory (build_group se d files videos v) = d
   \<and> video (build_group se d files videos v) = Some v
   \<and> set (sidecars (build_group se d files videos v)) =
       {f \<in> set files. f \<noteq> v \<and> mf_suffix f \<in> se \<and>
          ((mf_name f = mf_stem v @ ''.nfo'' \<or> mf_suffix f = ''nfo'' \<and> mf_stem f = mf_stem v
             \<or> prefix (mf_stem v @ ''.'') (mf_name f) \<or> prefix (mf_stem v @ ''-'') (mf_name f))
           \<or> length videos = 1 \<and>
             (py_lower (mf_name f) \<in> FOLDER_LEVEL_NFO_NAMES \<and> mf_suffix f = ''nfo''
               \<or> py_lower (mf_name f) \<in> FOLDER_LEVEL_SIDECAR_NAMES))}"
proof -
  let ?g0 = "\<lparr>directory = d, base_stem = mf_stem v, video = Some v, sidecars = [], nfo = None\<rparr>"
  let ?g1 = "foldl (stem_step se v) ?g0 files"
  note one = foldl_stem_step [of se v ?g0 files]
  note two = foldl_folder_step [of se v ?g1 files]
  show ?thesis
  proof (cases "length videos = 1")
    case True
    then have "build_group se d files videos v = foldl (folder_step se v) ?g1 files"
      by (simp add: build_group_def Let_def)
    then show ?thesis
      using one two True by auto
  next
    case False
    then have "build_group se d files videos v = ?g1"
      by (simp add: build_group_def Let_def)
    then show ?thesis
      using one False by auto
  qed
qed

text \<open>
  Claim C8 as the source has it.  Every group has a video \<open>v\<close> of its directory, and its
  sidecars are exactly the other files of that directory with a sidecar extension that
  either match the video's stem (\<open>stem.nfo\<close>, an \<open>nfo\<close> file of the same stem, or a name
  starting with \<open>stem.\<close> or \<open>stem-\<close>) or have a folder-level name while the directory holds
  exactly one video.  So a file is attached for its folder-level name only when the
  directory has exactly one video; with two or more videos a folder-level file is attached
  only to a group whose video stem it matches.  For \<open>A.mkv\<close>, \<open>B.mkv\<close>, \<open>poster.jpg\<close> in
  one directory neither group has a sidecar.
\<close>

theorem group_media_files_folder_level_only_single_video:
  "(\<forall>g \<in> set (group_media_files paths video_exts sidecar_exts).
      \<exists>v. video g = Some v \<and> v \<in> set paths \<and> mf_dir v = directory g \<and> mf_suffix v \<in> video_exts
        \<and> set (sidecars g) =
            {f \<in> set paths. mf_dir f = directory g \<and> f \<noteq> v \<and> mf_suffix f \<in> sidecar_exts \<and>
               ((mf_name f = mf_stem v @ ''.nfo'' \<or> mf_suffix f = ''nfo'' \<and> mf_stem f = mf_stem v
                  \<or> prefix (mf_stem v @ ''.'') (mf_name f) \<or> prefix (mf_stem v @ ''-'') (mf_name f))
                \<or> length (filter (\<lambda>p. mf_dir p = directory g \<and> mf_suffix p \<in> video_exts) paths) = 1 \<and>
                  (py_lower (mf_name f) \<in> FOLDER_LEVEL_NFO_NAMES \<and> mf_suffix f = ''nfo''
                    \<or> py_lower (mf_name f) \<in> FOLDER_LEVEL_SIDECAR_NAMES))})
   \<and> group_media_files [''/d/A.mkv'', ''/d/B.mkv'', ''/d/poster.jpg''] DEFAULT_VIDEO_EXTS DEFAULT_SIDECAR_EXTS
      = [\<lparr>directory = ''/d'', base_stem = ''A'', video = Some ''/d/A.mkv'', sidecars = [], nfo = None\<rparr>,
         \<lparr>directory = ''/d'', base_stem = ''B'', video = Some ''/d/B.mkv'', sidecars = [], nfo = None\<rparr>]"
proof (intro conjI ballI)
  fix g assume "g \<in> set (group_media_files paths video_exts sidecar_exts)"
  then obtain d files where df: "(d, files) \<in> set (foldl bucket_step [] paths)"
    and g: "g \<in> set (groups_of_dir video_exts sidecar_exts (d, files))"
    by (auto simp: group_media_files_def)
  have files: "files = filter (\<lambda>p. mf_dir p = d) paths"
    using df by (simp add: in_buckets_iff)
  let ?videos = "filter (\<lambda>f. mf_suffix f \<in> video_exts) files"
  have videos: "?videos = filter (\<lambda>p. mf_dir p = d \<and> mf_suffix p \<in> video_exts) paths"
    by (simp add: files conj_commute)
  obtain v where v: "v \<in> set ?videos" and gv: "g = build_group sidecar_exts d files ?videos v"
    using g by (auto simp: groups_of_dir_def Let_def)
  note f = build_group_fields [of sidecar_exts d files ?videos v, folded gv]
  have dir: "directory g = d" and vid: "video g = Some v" using f by simp_all
  have "v \<in> set paths" "mf_dir v = d" "mf_suffix v \<in> video_exts"
    using v by (simp_all add: files)
  moreover have "set (sidecars g) =
            {f \<in> set paths. mf_dir f = d \<and> f \<noteq> v \<and> mf_suffix f \<in> sidecar_exts \<and>
               ((mf_name f = mf_stem v @ ''.nfo'' \<or> mf_suffix f = ''nfo'' \<and> mf_stem f = mf_stem v
                  \<or> prefix (mf_stem v @ ''.'') (mf_name f) \<or> prefix (mf_stem v @ ''-'') (mf_name f))
                \<or> length (filter (\<lambda>p. mf_dir p = d \<and> mf_suffix p \<in> video_exts) paths) = 1 \<and>
                  (py_lower (mf_name f) \<in> FOLDER_LEVEL_NFO_NAMES \<and> mf_suffix f = ''nfo''
                    \<or> py_lower (mf_name f) \<in> FOLDER_LEVEL_SIDECAR_NAMES))}"
    using f unfolding videos by (auto simp: files)
  ultimately show "\<exists>v. video g = Some v \<and> v \<in> set paths \<and> mf_dir v = directory g \<and> mf_suffix v \<in> video_exts
        \<and> set (sidecars g) =
            {f \<in> set paths. mf_dir f = directory g \<and> f \<noteq> v \<and> mf_suffix f \<in> sidecar_exts \<and>
               ((mf_name f = mf_stem v @ ''.nfo'' \<or> mf_suffix f = ''nfo'' \<and> mf_stem f = mf_stem v
                  \<or> prefix (mf_stem v @ ''.'') (mf_name f) \<or> prefix (mf_stem v @ ''-'') (mf_name f))
                \<or> length (filter (\<lambda>p. mf_dir p = directory g \<and> mf_suffix p \<in> video_exts) paths) = 1 \<and>
                  (py_lower (mf_name f) \<in> FOLDER_LEVEL_NFO_NAMES \<and> mf_suffix f = ''nfo''
                    \<or> py_lower (mf_name f) \<in> FOLDER_LEVEL_SIDECAR_NAMES))}"
    unfolding dir using vid by (intro exI [of _ v]) (simp only: simp_thms)
next
  show "group_media_files [''/d/A.mkv'', ''/d/B.mkv'', ''/d/poster.jpg''] DEFAULT_VIDEO_EXTS DEFAULT_SIDECAR_EXTS
      = [\<lparr>directory = ''/d'', base_stem = ''A'', video = Some ''/d/A.mkv'', sidecars = [], nfo = None\<rparr>,
         \<lparr>directory = ''/d'', base_stem = ''B'', video = Some ''/d/B.mkv'', sidecars = [], nfo = None\<rparr>]"
    by code_simp
qed

theorem group_media_files_folder_level_only_single_video_witness:
  "group_media_files [''/d/Movie.mkv'', ''/d/poster.jpg''] DEFAULT_VIDEO_EXTS DEFAULT_SIDECAR_EXTS
     = [\<lparr>directory = ''/d'', base_stem = ''Movie'', video = Some ''/d/Movie.mkv'',
         sidecars = [''/d/poster.jpg''], nfo = None\<rparr>]
   \<and> (\<exists>v. Some ''/d/Movie.mkv'' = Some v \<and> v \<in> set [''/d/Movie.mkv'', ''/d/poster.jpg''] \<and> mf_dir v = ''/d'')"
proof -
  have ev: "group_media_files [''/d/Movie.mkv'', ''/d/poster.jpg''] DEFAULT_VIDEO_EXTS DEFAULT_SIDECAR_EXTS
     = [\<lparr>directory = ''/d'', base_stem = ''Movie'', video = Some ''/d/Movie.mkv'',
         sidecars = [''/d/poster.jpg''], nfo = None\<rparr>]"
    by code_simp
  show ?thesis
    using group_media_files_folder_level_only_single_video
      [of "[''/d/Movie.mkv'', ''/d/poster.jpg'']" DEFAULT_VIDEO_EXTS DEFAULT_SIDECAR_EXTS]
    unfolding ev by auto
qed

text \<open>
  Claim C8 as the specification words it fails: with the two videos \<open>poster.mkv\<close> and
  \<open>B.mkv\<close> in one directory, the folder-level file \<open>poster.jpg\<close> is a sidecar of the group
  of \<open>poster.mkv\<close>, whose stem it starts with.
\<close>

theorem group_media_files_stem_counterexample:
  "group_media_files [''/d/poster.mkv'', ''/d/B.mkv'', ''/d/poster.jpg''] DEFAULT_VIDEO_EXTS DEFAULT_SIDECAR_EXTS
      = [\<lparr>directory = ''/d'', base_stem = ''B'', video = Some ''/d/B.mkv'', sidecars = [], nfo = None\<rparr>,
         \<lparr>directory = ''/d'', base_stem = ''poster'', video = Some ''/d/poster.mkv'',
           sidecars = [''/d/poster.jpg''], nfo = None\<rparr>]
   \<and> py_lower (mf_name ''/d/poster.jpg'') \<in> FOLDER_LEVEL_SIDECAR_NAMES"
  by code_simp

section \<open>The identifier of a metadata document\<close>


lemma nfo_text_truthy: "nfo_text root t = None \<or> truthy (nfo_text root t)"
  by (auto simp: nfo_text_def truthy_def Let_def split: option.splits)

lemma py_or_find:
  "py_or (nfo_text root t) b =
     (case nfo_text root t of Some s \<Rightarrow> Some s | None \<Rightarrow> b)"
  using nfo_text_truthy [of root t] by (auto simp: py_or_def truthy_def split: option.splits)

lemma IMDB_RE_search_Some:
  "IMDB_RE_search raw = Some m \<Longrightarrow>
     \<exists>pre ds post. raw = pre @ m @ post \<and> m = ''tt'' @ ds \<and> 3 \<le> length ds \<and> length ds \<le> 10
        \<and> (\<forall>c \<in> set ds. re_digit c)"
proof (induction raw)
  case Nil
  then show ?case by simp
next
  case (Cons c cs)
  let ?rest = "drop 2 (c # cs)"
  let ?tw = "takeWhile re_digit ?rest"
  let ?C = "prefix ''tt'' (c # cs) \<and> 3 \<le> length ?tw"
  have unf: "(if ?C then Some (''tt'' @ take 10 ?tw) else IMDB_RE_search cs) = Some m"
    using Cons.prems by (simp only: IMDB_RE_search.simps)
  show ?case
  proof (cases ?C)
    case True
    have "Some (''tt'' @ take 10 ?tw) = Some m" using unf True by (simp only: if_True simp_thms)
    then have m: "m = ''tt'' @ take 10 ?tw" by (simp only: option.inject)
    have raw: "c # cs = ''tt'' @ ?rest" using True by (auto simp: prefix_def)
    have "?rest = take 10 ?tw @ (drop 10 ?tw @ dropWhile re_digit ?rest)"
      by (metis append.assoc append_take_drop_id takeWhile_dropWhile_id)
    then have "c # cs = [] @ m @ (drop 10 ?tw @ dropWhile re_digit ?rest)"
      using raw m by (metis append.assoc append_Nil)
    moreover have "\<forall>x \<in> set (take 10 ?tw). re_digit x"
      by (meson in_set_takeD set_takeWhileD)
    moreover have "3 \<le> length (take 10 ?tw)" "length (take 10 ?tw) \<le> 10"
      using True by simp_all
    ultimately show ?thesis using m by blast
  next
    case False
    then have "IMDB_RE_search cs = Some m" using unf by (simp only: if_False simp_thms)
    from Cons.IH [OF this] obtain pre ds post where
      "cs = pre @ m @ post" "m = ''tt'' @ ds" "3 \<le> length ds" "length ds \<le> 10" "\<forall>c \<in> set ds. re_digit c"
      by blast
    then have "c # cs = (c # pre) @ m @ post" by simp
    then show ?thesis
      using \<open>m = ''tt'' @ ds\<close> \<open>3 \<le> length ds\<close> \<open>length ds \<le> 10\<close> \<open>\<forall>c \<in> set ds. re_digit c\<close> by blast
  qed
qed

lemma IMDB_RE_search_finds:
  assumes "length ds = 3" and "\<forall>c \<in> set ds. re_digit c"
  shows "IMDB_RE_search (pre @ ''tt'' @ ds @ post) \<noteq> None"
proof (induction pre)
  case Nil
  have "takeWhile re_digit (ds @ post) = ds @ takeWhile re_digit post"
    using assms(2) by (simp add: takeWhile_append2)
  then have "3 \<le> length (takeWhile re_digit (drop 2 (''tt'' @ ds @ post)))" using assms(1) by simp
  moreover have "prefix ''tt'' (''tt'' @ ds @ post)" by simp
  ultimately have "IMDB_RE_search (CHR ''t'' # (CHR ''t'' # ds @ post)) \<noteq> None"
    by (simp only: IMDB_RE_search.simps append_Cons append_Nil if_True simp_thms) simp
  then show ?case by simp
next
  case (Cons p pre)
  have "IMDB_RE_search (p # (pre @ ''tt'' @ ds @ post)) \<noteq> None"
    using Cons.IH by (simp only: IMDB_RE_search.simps split: if_split) simp
  then show ?case by simp
qed

text \<open>
  Claim C9: the identifier that \<open>parse_nfo\<close> returns is found by taking the first of the
  fields \<open>imdbid\<close>, \<open>imdb_id\<close>, \<open>imdb\<close>, \<open>id\<close>, \<open>uniqueid\<close> (in this order) whose stripped
  text is not empty and searching it for \<open>tt\<close> followed by 3 to 10 digits; a match is such
  a piece of the text, and there is none exactly when the text holds no \<open>tt\<close> followed by
  three digits.  When no field has a match the identifier is absent.  A document whose
  \<open>imdbid\<close>, \<open>imdb_id\<close> and \<open>imdb\<close> fields are absent or empty and whose \<open>id\<close> is
  \<open>tt0078748\<close> yields \<open>tt0078748\<close>, as the document of the test suite does.
\<close>

theorem parse_nfo_imdbid_priority:
  "parse_nfo_imdbid root =
     (case List.find (\<lambda>x. x \<noteq> None)
             (map (nfo_text (nfo_root root)) [''imdbid'', ''imdb_id'', ''imdb'', ''id'', ''uniqueid'']) of
        Some (Some raw) \<Rightarrow> IMDB_RE_search raw
      | _ \<Rightarrow> None)
   \<and> (\<forall>raw m. IMDB_RE_search raw = Some m \<longrightarrow>
        (\<exists>pre ds post. raw = pre @ m @ post \<and> m = ''tt'' @ ds \<and> 3 \<le> length ds \<and> length ds \<le> 10
           \<and> (\<forall>c \<in> set ds. re_digit c)))
   \<and> (\<forall>raw. IMDB_RE_search raw = None \<longleftrightarrow>
        \<not> (\<exists>pre ds post. raw = pre @ ''tt'' @ ds @ post \<and> length ds = 3 \<and> (\<forall>c \<in> set ds. re_digit c)))
   \<and> ((\<forall>t \<in> set [''imdbid'', ''imdb_id'', ''imdb'', ''id'', ''uniqueid''].
          case nfo_text (nfo_root root) t of None \<Rightarrow> True | Some raw \<Rightarrow> IMDB_RE_search raw = None)
        \<longrightarrow> parse_nfo_imdbid root = None)
   \<and> (nfo_text (nfo_root root) ''imdbid'' = None \<and> nfo_text (nfo_root root) ''imdb_id'' = None
        \<and> nfo_text (nfo_root root) ''imdb'' = None \<and> nfo_text (nfo_root root) ''id'' = Some ''tt0078748''
        \<longrightarrow> parse_nfo_imdbid root = Some ''tt0078748'')
   \<and> parse_nfo_imdbid alien_nfo = Some ''tt0078748''"
proof (intro conjI allI impI)
  show first: "parse_nfo_imdbid root =
     (case List.find (\<lambda>x. x \<noteq> None)
             (map (nfo_text (nfo_root root)) [''imdbid'', ''imdb_id'', ''imdb'', ''id'', ''uniqueid'']) of
        Some (Some raw) \<Rightarrow> IMDB_RE_search raw
      | _ \<Rightarrow> None)"
    using nfo_text_truthy [of "nfo_root root" "''uniqueid''"]
    by (auto simp: parse_nfo_imdbid_def Let_def py_or_find truthy_def or_empty_def split: option.splits)
  show "\<exists>pre ds post. raw = pre @ m @ post \<and> m = ''tt'' @ ds \<and> 3 \<le> length ds \<and> length ds \<le> 10
           \<and> (\<forall>c \<in> set ds. re_digit c)" if "IMDB_RE_search raw = Some m" for raw m
    using IMDB_RE_search_Some [OF that] .
  show "IMDB_RE_search raw = None \<longleftrightarrow>
        \<not> (\<exists>pre ds post. raw = pre @ ''tt'' @ ds @ post \<and> length ds = 3 \<and> (\<forall>c \<in> set ds. re_digit c))" for raw
  proof
    assume "IMDB_RE_search raw = None"
    then show "\<not> (\<exists>pre ds post. raw = pre @ ''tt'' @ ds @ post \<and> length ds = 3 \<and> (\<forall>c \<in> set ds. re_digit c))"
      using IMDB_RE_search_finds by blast
  next
    assume no: "\<not> (\<exists>pre ds post. raw = pre @ ''tt'' @ ds @ post \<and> length ds = 3 \<and> (\<forall>c \<in> set ds. re_digit c))"
    show "IMDB_RE_search raw = None"
    proof (rule ccontr)
      assume "IMDB_RE_search raw \<noteq> None"
      then obtain m where "IMDB_RE_search raw = Some m" by auto
      from IMDB_RE_search_Some [OF this] obtain pre ds post where
        raw: "raw = pre @ m @ post" and m: "m = ''tt'' @ ds" and len: "3 \<le> length ds"
        and dig: "\<forall>c \<in> set ds. re_digit c"
        by blast
      have "(take 3 ds @ drop 3 ds) @ post = take 3 ds @ (drop 3 ds @ post)"
        by (rule append_assoc)
      then have "ds @ post = take 3 ds @ (drop 3 ds @ post)"
        by (simp only: append_take_drop_id)
      then have "raw = pre @ ''tt'' @ take 3 ds @ (drop 3 ds @ post)"
        unfolding raw m by (simp only: append_assoc)
      moreover have "length (take 3 ds) = 3" using len by simp
      moreover have "\<forall>c \<in> set (take 3 ds). re_digit c" using dig by (meson in_set_takeD)
      ultimately show False using no by blast
    qed
  qed
  show "parse_nfo_imdbid root = None"
    if "\<forall>t \<in> set [''imdbid'', ''imdb_id'', ''imdb'', ''id'', ''uniqueid''].
          case nfo_text (nfo_root root) t of None \<Rightarrow> True | Some raw \<Rightarrow> IMDB_RE_search raw = None"
    using that unfolding first by (auto split: option.splits)
  have alien: "IMDB_RE_search ''tt0078748'' = Some ''tt0078748''"
    by code_simp
  show "parse_nfo_imdbid root = Some ''tt0078748''"
    if "nfo_text (nfo_root root) ''imdbid'' = None \<and> nfo_text (nfo_root root) ''imdb_id'' = None
        \<and> nfo_text (nfo_root root) ''imdb'' = None \<and> nfo_text (nfo_root root) ''id'' = Some ''tt0078748''"
    using that alien unfolding first by simp
  show "parse_nfo_imdbid alien_nfo = Some ''tt0078748''"
    by code_simp
qed

theorem parse_nfo_imdbid_priority_witness:
  "parse_nfo_imdbid (Element ''root'' None
       [Element ''movie'' None
          [Element ''imdbid'' (Some '' '') [], Element ''imdb'' (Some ''x tt1234567 y'') [],
           Element ''id'' (Some ''tt0000001'') []]])
     = Some ''tt1234567''
   \<and> IMDB_RE_search ''x tt1234567 y'' = Some ''tt1234567''
   \<and> parse_nfo_imdbid (Element ''movie'' None [Element ''imdb'' (Some ''none'') [], Element ''id'' (Some ''tt0000001'') []])
     = None"
proof -
  have 1: "parse_nfo_imdbid (Element ''root'' None
       [Element ''movie'' None
          [Element ''imdbid'' (Some '' '') [], Element ''imdb'' (Some ''x tt1234567 y'') [],
           Element ''id'' (Some ''tt0000001'') []]])
     = Some ''tt1234567''"
    by code_simp
  have 2: "IMDB_RE_search ''x tt1234567 y'' = Some ''tt1234567''"
    by code_simp
  have 3: "parse_nfo_imdbid (Element ''movie'' None [Element ''imdb'' (Some ''none'') [], Element ''id'' (Some ''tt0000001'') []])
     = None"
    by code_simp
  show ?thesis
    using parse_nfo_imdbid_priority [of "Element ''movie'' None [Element ''imdb'' (Some ''none'') [], Element ''id'' (Some ''tt0000001'') []]"]
    unfolding 1 2 3 by simp
qed

section \<open>Directory renames in the catalog\<close>

text \<open>
  Claim C6 does not hold of the source at two catalogs.  First, the row
  \<open>/media/backup/media/film.mkv\<close> and the move \<open>/media \<rightarrow> /media2\<close>: \<open>REPLACE\<close> rewrites
  every occurrence of \<open>/media/\<close>, so the path becomes \<open>/media2/backup/media2/film.mkv\<close>
  (prefix substitution gives \<open>/media2/backup/media/film.mkv\<close>) while the directory column
  becomes \<open>/media2/backup/media\<close>.  Second, the rows \<open>/m/my_dir/f.mkv\<close> and
  \<open>/m/myXdir/g.mkv\<close> and the move \<open>/m/my_dir \<rightarrow> /m/new\<close>: the underscore of the \<open>LIKE\<close>
  pattern matches any character, so the second row, which is not under \<open>/m/my_dir/\<close>, is
  selected too: its time stamp changes and \<open>updated_prefix\<close> is 2 for one row under the
  prefix.
\<close>

theorem apply_plan_to_index_prefix_rewrite_diverges:
  "apply_plan_to_index [new_row ''/media/backup/media/film.mkv'' ''/media'' 0] 100
      \<lparr>title = ''t'', operations = [new_operation MOVE (Some ''/media'') (Some ''/media2'')],
        warnings = []\<rparr> []
   = Inr ([\<lparr>row_path = ''/media2/backup/media2/film.mkv'', row_dir = ''/media2/backup/media'',
             row_name = ''film.mkv'', row_ext = ''mkv'', row_root = ''/media'', row_scanned_at = 100\<rparr>],
          \<lparr>inserted = 0, deleted = 0, updated_prefix = 1\<rparr>)
   \<and> apply_plan_to_index
        [new_row ''/m/my_dir/f.mkv'' ''/m'' 0, new_row ''/m/myXdir/g.mkv'' ''/m'' 0] 100
        \<lparr>title = ''t'', operations = [new_operation MOVE (Some ''/m/my_dir'') (Some ''/m/new'')],
          warnings = []\<rparr> []
     = Inr ([\<lparr>row_path = ''/m/new/f.mkv'', row_dir = ''/m/new'', row_name = ''f.mkv'',
               row_ext = ''mkv'', row_root = ''/m'', row_scanned_at = 100\<rparr>,
             \<lparr>row_path = ''/m/myXdir/g.mkv'', row_dir = ''/m/myXdir'', row_name = ''g.mkv'',
               row_ext = ''mkv'', row_root = ''/m'', row_scanned_at = 100\<rparr>],
            \<lparr>inserted = 0, deleted = 0, updated_prefix = 2\<rparr>)"
  by code_simp

end
